theory Spec2Isabelle
  imports Main
begin

section \<open>CUtlArray: a growable array over a pluggable storage policy\<close>

text \<open>
  The embedding follows \<^verbatim>\<open>src/utils/common/utlarray.h\<close>.  Indices and counts
  are the source's \<^verbatim>\<open>int\<close>; they are modelled as unbounded integers (signed
  overflow is undefined behaviour in the source and no operation below relies on it).

  Every operation takes the build mode \<open>dbg\<close> first when it, or a method it calls,
  contains an \<^verbatim>\<open>assert\<close>: in a debug build (\<open>dbg = True\<close>) a failed assertion
  aborts and the code under \<^verbatim>\<open>#ifdef _DEBUG\<close> is compiled in; in an optimised build
  both are compiled out.  Operations return \<open>error + result\<close>; \<open>Inl\<close> is an abort
  or an undefined behaviour.
\<close>

datatype error =
    AssertFailed          \<comment> \<open>an \<^verbatim>\<open>assert\<close> of utlarray.h failed (debug builds only)\<close>
  | CapacityExceeded      \<comment> \<open>the fixed-capacity policy was asked to grow: fatal\<close>
  | UndefinedBehaviour    \<comment> \<open>access outside the allocated storage, or to a slot holding no live object\<close>

definition bind_err :: "error + 'a \<Rightarrow> ('a \<Rightarrow> error + 'b) \<Rightarrow> error + 'b" where
  "bind_err m f = (case m of Inl e \<Rightarrow> Inl e | Inr x \<Rightarrow> f x)"

text \<open>A \<^verbatim>\<open>for\<close> loop over the listed index values, stopping at the first abort.\<close>

fun iterate :: "int list \<Rightarrow> (int \<Rightarrow> 's \<Rightarrow> error + 's) \<Rightarrow> 's \<Rightarrow> error + 's" where
  "iterate [] f s = Inr s"
| "iterate (i # is) f s = (case f i s of Inl e \<Rightarrow> Inl e | Inr s' \<Rightarrow> iterate is f s')"

text \<open>\<^verbatim>\<open>for (int i = lo; i < hi; ++i)\<close> visits \<open>count_up lo hi\<close>;
  \<^verbatim>\<open>for (int i = hi; --i >= lo; )\<close> visits \<open>count_down lo hi\<close>.\<close>

definition count_up :: "int \<Rightarrow> int \<Rightarrow> int list" where
  "count_up lo hi = map (\<lambda>k. lo + int k) [0..<nat (hi - lo)]"

definition count_down :: "int \<Rightarrow> int \<Rightarrow> int list" where
  "count_down lo hi = rev (count_up lo hi)"

subsection \<open>The storage policy\<close>

text \<open>
  Modelled from the spec: the storage policy classes (\<^verbatim>\<open>utlmemory.h\<close>,
  \<^verbatim>\<open>utlblockmemory.h\<close>) and the element lifecycle helpers \<^verbatim>\<open>Construct\<close>,
  \<^verbatim>\<open>CopyConstruct\<close>, \<^verbatim>\<open>Destruct\<close> are included by utlarray.h but are not
  part of the sources.  The model follows sections 3, 4.1 (growth algorithm) and 4.2 to 4.5
  of the specification.

  A slot of storage either holds a live, constructed element (\<open>Some v\<close>) or is
  uninitialised storage with no live object (\<open>None\<close>).  The allocated capacity is the
  number of slots.  \<open>grow_events\<close> counts the invocations of the policy's \<^verbatim>\<open>Grow\<close>.
\<close>

datatype policy = Contiguous | FixedCapacity | BlockSegmented

record 'a CUtlMemory =
  m_pMemory :: "'a option list"
  m_nGrowSize :: int
  m_policy :: policy
  grow_events :: nat

text \<open>Modelled from the spec: the policy's constructor, "constructed with an initial size
  and growth increment".\<close>

definition Mem_init :: "policy \<Rightarrow> int \<Rightarrow> int \<Rightarrow> 'a CUtlMemory" where
  "Mem_init p growSize initSize =
     \<lparr> m_pMemory = replicate (nat initSize) None, m_nGrowSize = growSize,
       m_policy = p, grow_events = 0 \<rparr>"

text \<open>Modelled from the spec: "current allocated capacity".\<close>

definition Mem_NumAllocated :: "'a CUtlMemory \<Rightarrow> int" where
  "Mem_NumAllocated m = int (length (m_pMemory m))"

text \<open>Modelled from the spec: the base-address accessor, "valid only for contiguous
  policies"; for block-segmented storage "no single base address exists".  Storage with
  no slot allocated has no address either.\<close>

definition Mem_has_Base :: "'a CUtlMemory \<Rightarrow> bool" where
  "Mem_has_Base m = (m_policy m \<noteq> BlockSegmented \<and> m_pMemory m \<noteq> [])"

text \<open>Modelled from the spec: the growth algorithm of section 4.1.  With growth increment
  0 the new capacity is the larger of (capacity + requested) and (capacity doubled, minimum
  1); otherwise it is the capacity plus the smallest multiple of the increment that
  accommodates the request.  The fixed-capacity policy refuses to grow (section 4.3).
  Existing slots keep their content.\<close>

definition Mem_new_capacity :: "int \<Rightarrow> int \<Rightarrow> int \<Rightarrow> int" where
  "Mem_new_capacity cap growSize n =
     (if growSize = 0 then max (cap + n) (max 1 (2 * cap))
      else cap + ((n + growSize - 1) div growSize) * growSize)"

definition Mem_Grow :: "int \<Rightarrow> 'a CUtlMemory \<Rightarrow> error + 'a CUtlMemory" where
  "Mem_Grow n m =
     (if m_policy m = FixedCapacity then Inl CapacityExceeded
      else
        let cap = Mem_NumAllocated m;
            cap' = Mem_new_capacity cap (m_nGrowSize m) n
        in Inr (m \<lparr> m_pMemory := m_pMemory m @ replicate (nat (cap' - cap)) None,
                    grow_events := Suc (grow_events m) \<rparr>))"

text \<open>Modelled from the spec: "\<^verbatim>\<open>EnsureCapacity(n)\<close>: guarantees allocated capacity
  \<open>\<ge> n\<close>"; the fixed-capacity policy cannot go past its bound.\<close>

definition Mem_EnsureCapacity :: "int \<Rightarrow> 'a CUtlMemory \<Rightarrow> error + 'a CUtlMemory" where
  "Mem_EnsureCapacity n m =
     (if n \<le> Mem_NumAllocated m then Inr m
      else if m_policy m = FixedCapacity then Inl CapacityExceeded
      else Inr (m \<lparr> m_pMemory :=
                     m_pMemory m @ replicate (nat (n - Mem_NumAllocated m)) None \<rparr>))"

text \<open>Modelled from the spec: "\<^verbatim>\<open>Purge()\<close> releases the block entirely,
  \<^verbatim>\<open>Purge(keepSize)\<close> releases the tail beyond \<open>keepSize\<close> worth of capacity".
  For the fixed-capacity policy "no reallocation ever occurs": its capacity stays at the
  bound.\<close>

definition Mem_Purge :: "'a CUtlMemory \<Rightarrow> 'a CUtlMemory" where
  "Mem_Purge m =
     (if m_policy m = FixedCapacity then m else m \<lparr> m_pMemory := [] \<rparr>)"

definition Mem_Purge_keep :: "int \<Rightarrow> 'a CUtlMemory \<Rightarrow> 'a CUtlMemory" where
  "Mem_Purge_keep keepSize m =
     (if m_policy m = FixedCapacity then m
      else m \<lparr> m_pMemory := take (nat keepSize) (m_pMemory m) \<rparr>)"

text \<open>Modelled from the spec: \<^verbatim>\<open>SetGrowSize\<close> stores the growth increment.\<close>

definition Mem_SetGrowSize :: "int \<Rightarrow> 'a CUtlMemory \<Rightarrow> 'a CUtlMemory" where
  "Mem_SetGrowSize n m = m \<lparr> m_nGrowSize := n \<rparr>"

text \<open>Modelled from the spec: access to the slot at an index.  An index outside the
  allocated slots has no storage behind it.\<close>

definition Mem_in_storage :: "'a CUtlMemory \<Rightarrow> int \<Rightarrow> bool" where
  "Mem_in_storage m i = (0 \<le> i \<and> i < Mem_NumAllocated m)"

definition Mem_slot :: "'a CUtlMemory \<Rightarrow> int \<Rightarrow> 'a option" where
  "Mem_slot m i = (if Mem_in_storage m i then m_pMemory m ! nat i else None)"

definition Mem_set_slot :: "int \<Rightarrow> 'a option \<Rightarrow> 'a CUtlMemory \<Rightarrow> 'a CUtlMemory" where
  "Mem_set_slot i x m = m \<lparr> m_pMemory := (m_pMemory m)[nat i := x] \<rparr>"

text \<open>Modelled from the spec: bulk byte-range relocation of \<open>n\<close> elements from slot
  \<open>src\<close> to slot \<open>dst\<close> (\<^verbatim>\<open>memmove\<close>, and \<^verbatim>\<open>memcpy\<close> of one element).
  The destination slots receive the source slots' content; a source slot that is not
  itself a destination no longer holds an object.\<close>

definition relocate :: "nat \<Rightarrow> nat \<Rightarrow> nat \<Rightarrow> 'a option list \<Rightarrow> 'a option list" where
  "relocate dst src n xs =
     map (\<lambda>k. if dst \<le> k \<and> k < dst + n then xs ! (src + (k - dst))
               else if src \<le> k \<and> k < src + n then None
               else xs ! k) [0..<length xs]"

definition Mem_move :: "int \<Rightarrow> int \<Rightarrow> int \<Rightarrow> 'a CUtlMemory \<Rightarrow> error + 'a CUtlMemory" where
  "Mem_move dst src n m =
     (if 0 \<le> n \<and> 0 \<le> dst \<and> 0 \<le> src \<and> dst + n \<le> Mem_NumAllocated m
         \<and> src + n \<le> Mem_NumAllocated m
      then Inr (m \<lparr> m_pMemory := relocate (nat dst) (nat src) (nat n) (m_pMemory m) \<rparr>)
      else Inl UndefinedBehaviour)"

text \<open>The debug-only \<^verbatim>\<open>memset( ..., 0xDD, n * sizeof(T) )\<close>: \<open>n\<close> slots from
  \<open>start\<close> are overwritten with a fill pattern and hold no object afterwards.\<close>

definition Mem_fill :: "int \<Rightarrow> int \<Rightarrow> 'a CUtlMemory \<Rightarrow> error + 'a CUtlMemory" where
  "Mem_fill start n m =
     (if 0 \<le> n \<and> 0 \<le> start \<and> start + n \<le> Mem_NumAllocated m
      then Inr (m \<lparr> m_pMemory :=
                     map (\<lambda>k. if nat start \<le> k \<and> k < nat start + nat n then None
                               else m_pMemory m ! k) [0..<length (m_pMemory m)] \<rparr>)
      else Inl UndefinedBehaviour)"

subsection \<open>The growable array\<close>

text \<open>\<^verbatim>\<open>CAllocator m_Memory; int m_Size;\<close>  The member \<^verbatim>\<open>m_pElements\<close> only mirrors
  \<^verbatim>\<open>Base()\<close> for the debugger (\<^verbatim>\<open>ResetDbgInfo\<close>) and is not modelled.\<close>

record 'a CUtlArray =
  m_Memory :: "'a CUtlMemory"
  m_Size :: int

text \<open>\<^verbatim>\<open>CUtlArray( int growSize = 0, int initSize = 0 )\<close>, for the storage policy \<open>p\<close>
  (the template parameter \<^verbatim>\<open>A\<close>).\<close>

definition CUtlArray_init :: "policy \<Rightarrow> int \<Rightarrow> int \<Rightarrow> 'a CUtlArray" where
  "CUtlArray_init p growSize initSize =
     \<lparr> m_Memory = Mem_init p growSize initSize, m_Size = 0 \<rparr>"

definition NumAllocated :: "'a CUtlArray \<Rightarrow> int" where
  "NumAllocated a = Mem_NumAllocated (m_Memory a)"

definition Count :: "'a CUtlArray \<Rightarrow> int" where
  "Count a = m_Size a"

definition IsValidIndex :: "'a CUtlArray \<Rightarrow> int \<Rightarrow> bool" where
  "IsValidIndex a i = ((i \<ge> 0) \<and> (i < m_Size a))"

definition InvalidIndex :: int where
  "InvalidIndex = - 1"

text \<open>\<^verbatim>\<open>Element(i)\<close> and \<^verbatim>\<open>operator[]\<close> return \<^verbatim>\<open>m_Memory[ i ]\<close> with no check of
  their own.  Reading through the reference needs a live element in the slot.\<close>

definition Element :: "'a CUtlArray \<Rightarrow> int \<Rightarrow> error + 'a" where
  "Element a i =
     (case Mem_slot (m_Memory a) i of None \<Rightarrow> Inl UndefinedBehaviour | Some v \<Rightarrow> Inr v)"

definition Head :: "bool \<Rightarrow> 'a CUtlArray \<Rightarrow> error + 'a" where
  "Head dbg a = (if dbg \<and> \<not> m_Size a > 0 then Inl AssertFailed else Element a 0)"

definition Tail :: "bool \<Rightarrow> 'a CUtlArray \<Rightarrow> error + 'a" where
  "Tail dbg a = (if dbg \<and> \<not> m_Size a > 0 then Inl AssertFailed else Element a (m_Size a - 1))"

text \<open>Modelled from the spec: the element lifecycle at \<^verbatim>\<open>&Element(i)\<close>.
  \<^verbatim>\<open>CopyConstruct\<close> places a copy of \<open>v\<close> in the slot, \<^verbatim>\<open>Construct\<close> places the
  default-constructed value \<open>T0\<close>, \<^verbatim>\<open>Destruct\<close> ends the life of the element in the
  slot, and the assignment \<^verbatim>\<open>Element(i) = v\<close> overwrites a live element.\<close>

definition CopyConstruct :: "int \<Rightarrow> 'a \<Rightarrow> 'a CUtlArray \<Rightarrow> error + 'a CUtlArray" where
  "CopyConstruct i v a =
     (if Mem_in_storage (m_Memory a) i
      then Inr (a \<lparr> m_Memory := Mem_set_slot i (Some v) (m_Memory a) \<rparr>)
      else Inl UndefinedBehaviour)"

definition Construct :: "'a \<Rightarrow> int \<Rightarrow> 'a CUtlArray \<Rightarrow> error + 'a CUtlArray" where
  "Construct T0 i a = CopyConstruct i T0 a"

definition Destruct :: "int \<Rightarrow> 'a CUtlArray \<Rightarrow> error + 'a CUtlArray" where
  "Destruct i a =
     (case Mem_slot (m_Memory a) i of
        None \<Rightarrow> Inl UndefinedBehaviour
      | Some v \<Rightarrow> Inr (a \<lparr> m_Memory := Mem_set_slot i None (m_Memory a) \<rparr>))"

definition Assign :: "int \<Rightarrow> 'a \<Rightarrow> 'a CUtlArray \<Rightarrow> error + 'a CUtlArray" where
  "Assign i v a =
     (case Mem_slot (m_Memory a) i of
        None \<Rightarrow> Inl UndefinedBehaviour
      | Some w \<Rightarrow> Inr (a \<lparr> m_Memory := Mem_set_slot i (Some v) (m_Memory a) \<rparr>))"

text \<open>\<^verbatim>\<open>GrowVector( int num = 1 )\<close>\<close>

definition GrowVector :: "int \<Rightarrow> 'a CUtlArray \<Rightarrow> error + 'a CUtlArray" where
  "GrowVector num a =
     bind_err
       (if m_Size a + num > NumAllocated a
        then Mem_Grow (m_Size a + num - NumAllocated a) (m_Memory a)
        else Inr (m_Memory a))
       (\<lambda>m. Inr (a \<lparr> m_Memory := m, m_Size := m_Size a + num \<rparr>))"

text \<open>\<^verbatim>\<open>EnsureCapacity( int num )\<close>\<close>

definition EnsureCapacity :: "int \<Rightarrow> 'a CUtlArray \<Rightarrow> error + 'a CUtlArray" where
  "EnsureCapacity num a =
     bind_err (Mem_EnsureCapacity num (m_Memory a)) (\<lambda>m. Inr (a \<lparr> m_Memory := m \<rparr>))"

text \<open>\<^verbatim>\<open>ShiftElementsRight( int elem, int num = 1 )\<close> and
  \<^verbatim>\<open>ShiftElementsLeft( int elem, int num = 1 )\<close>\<close>

definition ShiftElementsRight :: "bool \<Rightarrow> int \<Rightarrow> int \<Rightarrow> 'a CUtlArray \<Rightarrow> error + 'a CUtlArray" where
  "ShiftElementsRight dbg elem num a =
     (if dbg \<and> \<not> (IsValidIndex a elem \<or> (m_Size a = 0) \<or> (num = 0)) then Inl AssertFailed
      else
        let numToMove = m_Size a - elem - num in
        if (numToMove > 0) \<and> (num > 0)
        then bind_err (Mem_move (elem + num) elem numToMove (m_Memory a))
               (\<lambda>m. Inr (a \<lparr> m_Memory := m \<rparr>))
        else Inr a)"

definition ShiftElementsLeft :: "bool \<Rightarrow> int \<Rightarrow> int \<Rightarrow> 'a CUtlArray \<Rightarrow> error + 'a CUtlArray" where
  "ShiftElementsLeft dbg elem num a =
     (if dbg \<and> \<not> (IsValidIndex a elem \<or> (m_Size a = 0) \<or> (num = 0)) then Inl AssertFailed
      else
        let numToMove = m_Size a - elem - num in
        if (numToMove > 0) \<and> (num > 0)
        then bind_err (Mem_move elem (elem + num) numToMove (m_Memory a))
               (\<lambda>m. bind_err (if dbg then Mem_fill (m_Size a - num) num m else Inr m)
                  (\<lambda>m'. Inr (a \<lparr> m_Memory := m' \<rparr>)))
        else Inr a)"

text \<open>An element passed by reference (\<^verbatim>\<open>const T& src\<close>) is either an object outside
  the array's storage, with its value, or the slot at an index of the array's own storage.
  A source array passed by pointer (\<^verbatim>\<open>const T *pToCopy\<close>) is the null pointer, an array
  of the caller outside the array's storage, with its elements, or a pointer to the slot
  at an index of the array's own storage.  An object outside the storage carries the
  distance of its address from \<^verbatim>\<open>Base()\<close>, counted in elements; the distance is only
  compared, as the assertions of the source compare addresses.  Such an object lies in
  front of the storage (a negative distance) or behind it (a distance of at least the
  capacity); \<open>ref_clear\<close> and \<open>sources_clear\<close> below say so.\<close>

datatype 'a elem_ref = Outside int 'a | Inside int

datatype 'a array_ptr = Null | Apart int "'a list" | Within int

fun ref_offset :: "'a elem_ref \<Rightarrow> int" where
  "ref_offset (Outside d v) = d"
| "ref_offset (Inside k) = k"

text \<open>\<^verbatim>\<open>(Base() == NULL) || (&src < Base()) || (&src >= (Base() + Count()))\<close>, the
  assertion of \<^verbatim>\<open>AddToHead\<close>, \<^verbatim>\<open>AddToTail\<close>, \<^verbatim>\<open>InsertAfter\<close> and
  \<^verbatim>\<open>InsertBefore\<close> with a source.\<close>

definition not_in_list :: "'a CUtlArray \<Rightarrow> 'a elem_ref \<Rightarrow> bool" where
  "not_in_list a src =
     (\<not> Mem_has_Base (m_Memory a) \<or> (ref_offset src < 0) \<or> (ref_offset src \<ge> Count a))"

text \<open>\<^verbatim>\<open>(Base() == NULL) || !pToCopy || (pToCopy + num < Base()) || (pToCopy >= (Base() + Count()))\<close>,
  the assertion of \<^verbatim>\<open>AddMultipleToTail\<close>.\<close>

definition not_in_list_multiple :: "'a CUtlArray \<Rightarrow> 'a array_ptr \<Rightarrow> int \<Rightarrow> bool" where
  "not_in_list_multiple a pToCopy num =
     (\<not> Mem_has_Base (m_Memory a) \<or>
      (case pToCopy of
         Null \<Rightarrow> True
       | Apart d ys \<Rightarrow> (d + num < 0) \<or> (d \<ge> Count a)
       | Within k \<Rightarrow> (k + num < 0) \<or> (k \<ge> Count a)))"

text \<open>\<^verbatim>\<open>(Base() == NULL) || !pArray || (Base() >= (pArray + size)) || (pArray >= (Base() + Count()))\<close>,
  the assertion of \<^verbatim>\<open>CopyArray\<close>.\<close>

definition no_overlap :: "'a CUtlArray \<Rightarrow> 'a array_ptr \<Rightarrow> int \<Rightarrow> bool" where
  "no_overlap a pArray sz =
     (\<not> Mem_has_Base (m_Memory a) \<or>
      (case pArray of
         Null \<Rightarrow> True
       | Apart d ys \<Rightarrow> (0 \<ge> d + sz) \<or> (d \<ge> Count a)
       | Within k \<Rightarrow> (0 \<ge> k + sz) \<or> (k \<ge> Count a)))"

text \<open>Modelled from the spec: whether an address into the storage taken when the array was
  \<open>a0\<close> is still good for the array \<open>a\<close>.  The contiguous policy "exposes a stable base
  address between mutations but that address may change after any growth"; the
  fixed-capacity policy never reallocates; under the block-segmented policy "previously
  issued per-element addresses inside already-allocated pages remain valid across
  growth".\<close>

definition storage_moved :: "'a CUtlArray \<Rightarrow> 'a CUtlArray \<Rightarrow> bool" where
  "storage_moved a0 a =
     (m_policy (m_Memory a) = Contiguous \<and>
      grow_events (m_Memory a) \<noteq> grow_events (m_Memory a0))"

text \<open>Reading the caller's sequence at index \<open>i\<close>; reading past its end is undefined.\<close>

definition list_read :: "'a list \<Rightarrow> int \<Rightarrow> error + 'a" where
  "list_read xs i =
     (if 0 \<le> i \<and> i < int (length xs) then Inr (xs ! nat i) else Inl UndefinedBehaviour)"

text \<open>Reading through a reference or a pointer that was passed when the array was \<open>a0\<close>,
  now that the array is \<open>a\<close>: an object outside the storage still has its value, a slot
  of the storage has what the array holds there now, and an address into storage that has
  moved, or the null pointer, cannot be read.\<close>

definition ref_read :: "'a CUtlArray \<Rightarrow> 'a elem_ref \<Rightarrow> 'a CUtlArray \<Rightarrow> error + 'a" where
  "ref_read a0 src a =
     (case src of
        Outside d v \<Rightarrow> Inr v
      | Inside k \<Rightarrow> if storage_moved a0 a then Inl UndefinedBehaviour else Element a k)"

definition ptr_read :: "'a CUtlArray \<Rightarrow> 'a array_ptr \<Rightarrow> int \<Rightarrow> 'a CUtlArray \<Rightarrow> error + 'a" where
  "ptr_read a0 p i a =
     (case p of
        Null \<Rightarrow> Inl UndefinedBehaviour
      | Apart d ys \<Rightarrow> list_read ys i
      | Within k \<Rightarrow> if storage_moved a0 a then Inl UndefinedBehaviour else Element a (k + i))"

text \<open>Insertion of one element.  \<open>InsertBefore_default\<close> is \<^verbatim>\<open>InsertBefore( int elem )\<close>
  (default construction of \<open>T0\<close>); \<open>InsertBefore\<close> is
  \<^verbatim>\<open>InsertBefore( int elem, const T& src )\<close>, whose \<^verbatim>\<open>CopyConstruct\<close> reads the source
  after the growth and the shift.  The returned pair is (result of the call, array
  afterwards).\<close>

definition InsertBefore_default ::
  "bool \<Rightarrow> 'a \<Rightarrow> int \<Rightarrow> 'a CUtlArray \<Rightarrow> error + (int \<times> 'a CUtlArray)" where
  "InsertBefore_default dbg T0 elem a =
     (if dbg \<and> \<not> ((elem = Count a) \<or> IsValidIndex a elem) then Inl AssertFailed
      else bind_err (GrowVector 1 a) (\<lambda>a1.
           bind_err (ShiftElementsRight dbg elem 1 a1) (\<lambda>a2.
           bind_err (Construct T0 elem a2) (\<lambda>a3. Inr (elem, a3)))))"

definition InsertBefore ::
  "bool \<Rightarrow> int \<Rightarrow> 'a elem_ref \<Rightarrow> 'a CUtlArray \<Rightarrow> error + (int \<times> 'a CUtlArray)" where
  "InsertBefore dbg elem src a =
     (if dbg \<and> \<not> not_in_list a src then Inl AssertFailed
      else if dbg \<and> \<not> ((elem = Count a) \<or> IsValidIndex a elem) then Inl AssertFailed
      else bind_err (GrowVector 1 a) (\<lambda>a1.
           bind_err (ShiftElementsRight dbg elem 1 a1) (\<lambda>a2.
           bind_err (ref_read a src a2) (\<lambda>v.
           bind_err (CopyConstruct elem v a2) (\<lambda>a3. Inr (elem, a3))))))"

definition AddToHead_default :: "bool \<Rightarrow> 'a \<Rightarrow> 'a CUtlArray \<Rightarrow> error + (int \<times> 'a CUtlArray)" where
  "AddToHead_default dbg T0 a = InsertBefore_default dbg T0 0 a"

definition AddToTail_default :: "bool \<Rightarrow> 'a \<Rightarrow> 'a CUtlArray \<Rightarrow> error + (int \<times> 'a CUtlArray)" where
  "AddToTail_default dbg T0 a = InsertBefore_default dbg T0 (m_Size a) a"

definition InsertAfter_default ::
  "bool \<Rightarrow> 'a \<Rightarrow> int \<Rightarrow> 'a CUtlArray \<Rightarrow> error + (int \<times> 'a CUtlArray)" where
  "InsertAfter_default dbg T0 elem a = InsertBefore_default dbg T0 (elem + 1) a"

definition AddToHead ::
  "bool \<Rightarrow> 'a elem_ref \<Rightarrow> 'a CUtlArray \<Rightarrow> error + (int \<times> 'a CUtlArray)" where
  "AddToHead dbg src a =
     (if dbg \<and> \<not> not_in_list a src then Inl AssertFailed else InsertBefore dbg 0 src a)"

definition AddToTail ::
  "bool \<Rightarrow> 'a elem_ref \<Rightarrow> 'a CUtlArray \<Rightarrow> error + (int \<times> 'a CUtlArray)" where
  "AddToTail dbg src a =
     (if dbg \<and> \<not> not_in_list a src then Inl AssertFailed
      else InsertBefore dbg (m_Size a) src a)"

definition InsertAfter ::
  "bool \<Rightarrow> int \<Rightarrow> 'a elem_ref \<Rightarrow> 'a CUtlArray \<Rightarrow> error + (int \<times> 'a CUtlArray)" where
  "InsertAfter dbg elem src a =
     (if dbg \<and> \<not> not_in_list a src then Inl AssertFailed
      else InsertBefore dbg (elem + 1) src a)"

text \<open>An array passed by reference (\<^verbatim>\<open>const CUtlArray &other\<close>) is either the very
  object the method runs on, or another object.\<close>

datatype 'a array_ref = This | Other "'a CUtlArray"

definition deref :: "'a array_ref \<Rightarrow> 'a CUtlArray \<Rightarrow> 'a CUtlArray" where
  "deref r this = (case r of This \<Rightarrow> this | Other b \<Rightarrow> b)"

text \<open>\<^verbatim>\<open>InsertMultipleBefore( int elem, int num, const T *pToInsert )\<close>; it has no
  assertion on the source.\<close>

definition InsertMultipleBefore ::
  "bool \<Rightarrow> 'a \<Rightarrow> int \<Rightarrow> int \<Rightarrow> 'a array_ptr \<Rightarrow> 'a CUtlArray \<Rightarrow> error + (int \<times> 'a CUtlArray)" where
  "InsertMultipleBefore dbg T0 elem num pToInsert a =
     (if num = 0 then Inr (elem, a)
      else if dbg \<and> \<not> ((elem = Count a) \<or> IsValidIndex a elem) then Inl AssertFailed
      else bind_err (GrowVector num a) (\<lambda>a1.
           bind_err (ShiftElementsRight dbg elem num a1) (\<lambda>a2.
           bind_err (iterate (count_up 0 num) (\<lambda>i. Construct T0 (elem + i)) a2) (\<lambda>a3.
           bind_err
             (if pToInsert \<noteq> Null
              then iterate (count_up 0 num)
                     (\<lambda>i s. bind_err (ptr_read a pToInsert i s) (\<lambda>v. Assign (elem + i) v s)) a3
              else Inr a3)
             (\<lambda>a4. Inr (elem, a4))))))"

definition AddMultipleToHead ::
  "bool \<Rightarrow> 'a \<Rightarrow> int \<Rightarrow> 'a CUtlArray \<Rightarrow> error + (int \<times> 'a CUtlArray)" where
  "AddMultipleToHead dbg T0 num a = InsertMultipleBefore dbg T0 0 num Null a"

definition AddMultipleToTail ::
  "bool \<Rightarrow> 'a \<Rightarrow> int \<Rightarrow> 'a array_ptr \<Rightarrow> 'a CUtlArray \<Rightarrow> error + (int \<times> 'a CUtlArray)" where
  "AddMultipleToTail dbg T0 num pToCopy a =
     (if dbg \<and> \<not> not_in_list_multiple a pToCopy num then Inl AssertFailed
      else InsertMultipleBefore dbg T0 (m_Size a) num pToCopy a)"

definition InsertMultipleAfter ::
  "bool \<Rightarrow> 'a \<Rightarrow> int \<Rightarrow> int \<Rightarrow> 'a CUtlArray \<Rightarrow> error + (int \<times> 'a CUtlArray)" where
  "InsertMultipleAfter dbg T0 elem num a = InsertMultipleBefore dbg T0 (elem + 1) num Null a"

text \<open>Element removal.\<close>

definition RemoveAll :: "'a CUtlArray \<Rightarrow> error + 'a CUtlArray" where
  "RemoveAll a =
     bind_err (iterate (count_down 0 (m_Size a)) Destruct a) (\<lambda>a1. Inr (a1 \<lparr> m_Size := 0 \<rparr>))"

text \<open>In \<^verbatim>\<open>FastRemove\<close> the \<^verbatim>\<open>memcpy\<close> of one element is unconditional once
  \<^verbatim>\<open>m_Size > 0\<close>; at the last index source and destination are the same slot.\<close>

definition FastRemove :: "bool \<Rightarrow> int \<Rightarrow> 'a CUtlArray \<Rightarrow> error + 'a CUtlArray" where
  "FastRemove dbg elem a =
     (if dbg \<and> \<not> IsValidIndex a elem then Inl AssertFailed
      else bind_err (Destruct elem a) (\<lambda>a1.
           if m_Size a1 > 0
           then bind_err (Mem_move elem (m_Size a1 - 1) 1 (m_Memory a1))
                  (\<lambda>m. Inr (a1 \<lparr> m_Memory := m, m_Size := m_Size a1 - 1 \<rparr>))
           else Inr a1))"

definition Remove :: "bool \<Rightarrow> int \<Rightarrow> 'a CUtlArray \<Rightarrow> error + 'a CUtlArray" where
  "Remove dbg elem a =
     bind_err (Destruct elem a) (\<lambda>a1.
     bind_err (ShiftElementsLeft dbg elem 1 a1) (\<lambda>a2.
     Inr (a2 \<lparr> m_Size := m_Size a2 - 1 \<rparr>)))"

definition RemoveMultiple :: "bool \<Rightarrow> int \<Rightarrow> int \<Rightarrow> 'a CUtlArray \<Rightarrow> error + 'a CUtlArray" where
  "RemoveMultiple dbg elem num a =
     (if dbg \<and> \<not> (elem \<ge> 0) then Inl AssertFailed
      else if dbg \<and> \<not> (elem + num \<le> Count a) then Inl AssertFailed
      else bind_err (iterate (count_down elem (elem + num)) Destruct a) (\<lambda>a1.
           bind_err (ShiftElementsLeft dbg elem num a1) (\<lambda>a2.
           Inr (a2 \<lparr> m_Size := m_Size a2 - num \<rparr>))))"

text \<open>\<^verbatim>\<open>Find\<close>: linear scan with \<^verbatim>\<open>operator==\<close>, first match wins, \<open>-1\<close> when
  there is none.\<close>

fun Find_loop :: "int list \<Rightarrow> 'a CUtlArray \<Rightarrow> 'a \<Rightarrow> error + int" where
  "Find_loop [] a src = Inr (- 1)"
| "Find_loop (i # is) a src =
     bind_err (Element a i) (\<lambda>v. if v = src then Inr i else Find_loop is a src)"

definition Find :: "'a CUtlArray \<Rightarrow> 'a \<Rightarrow> error + int" where
  "Find a src = Find_loop (count_up 0 (Count a)) a src"

definition HasElement :: "'a CUtlArray \<Rightarrow> 'a \<Rightarrow> error + bool" where
  "HasElement a src = bind_err (Find a src) (\<lambda>i. Inr (i \<ge> 0))"

definition FindAndRemove :: "bool \<Rightarrow> 'a \<Rightarrow> 'a CUtlArray \<Rightarrow> error + (bool \<times> 'a CUtlArray)" where
  "FindAndRemove dbg src a =
     bind_err (Find a src) (\<lambda>elem.
       if elem \<noteq> - 1
       then bind_err (Remove dbg elem a) (\<lambda>a1. Inr (True, a1))
       else Inr (False, a))"

text \<open>Memory deallocation.\<close>

definition Purge :: "'a CUtlArray \<Rightarrow> error + 'a CUtlArray" where
  "Purge a =
     bind_err (RemoveAll a) (\<lambda>a1. Inr (a1 \<lparr> m_Memory := Mem_Purge (m_Memory a1) \<rparr>))"

text \<open>\<^verbatim>\<open>PurgeAndDeleteElements\<close> reads every element to \<^verbatim>\<open>delete\<close> what it points
  to; the pointed-to objects are outside the array.\<close>

definition PurgeAndDeleteElements :: "'a CUtlArray \<Rightarrow> error + 'a CUtlArray" where
  "PurgeAndDeleteElements a =
     bind_err (iterate (count_up 0 (m_Size a)) (\<lambda>i s. bind_err (Element s i) (\<lambda>v. Inr s)) a)
       Purge"

definition Compact :: "'a CUtlArray \<Rightarrow> 'a CUtlArray" where
  "Compact a = a \<lparr> m_Memory := Mem_Purge_keep (m_Size a) (m_Memory a) \<rparr>"

definition SetGrowSize :: "int \<Rightarrow> 'a CUtlArray \<Rightarrow> 'a CUtlArray" where
  "SetGrowSize n a = a \<lparr> m_Memory := Mem_SetGrowSize n (m_Memory a) \<rparr>"

text \<open>\<^verbatim>\<open>SetCount\<close>, \<^verbatim>\<open>SetSize\<close>, \<^verbatim>\<open>CopyArray\<close>, \<^verbatim>\<open>EnsureCount\<close>.  A call of
  \<^verbatim>\<open>AddMultipleToTail\<close> with one argument passes the null pointer.\<close>

definition SetCount :: "bool \<Rightarrow> 'a \<Rightarrow> int \<Rightarrow> 'a CUtlArray \<Rightarrow> error + 'a CUtlArray" where
  "SetCount dbg T0 count a =
     bind_err (RemoveAll a) (\<lambda>a1.
     bind_err (AddMultipleToTail dbg T0 count Null a1) (\<lambda>r. Inr (snd r)))"

definition SetSize :: "bool \<Rightarrow> 'a \<Rightarrow> int \<Rightarrow> 'a CUtlArray \<Rightarrow> error + 'a CUtlArray" where
  "SetSize dbg T0 sz a = SetCount dbg T0 sz a"

definition CopyArray ::
  "bool \<Rightarrow> 'a \<Rightarrow> 'a array_ptr \<Rightarrow> int \<Rightarrow> 'a CUtlArray \<Rightarrow> error + 'a CUtlArray" where
  "CopyArray dbg T0 pArray sz a =
     (if dbg \<and> \<not> no_overlap a pArray sz then Inl AssertFailed
      else bind_err (SetSize dbg T0 sz a) (\<lambda>a1.
             iterate (count_up 0 sz)
               (\<lambda>i s. bind_err (ptr_read a pArray i s) (\<lambda>v. Assign i v s)) a1))"

definition EnsureCount :: "bool \<Rightarrow> 'a \<Rightarrow> int \<Rightarrow> 'a CUtlArray \<Rightarrow> error + 'a CUtlArray" where
  "EnsureCount dbg T0 num a =
     (if Count a < num
      then bind_err (AddMultipleToTail dbg T0 (num - Count a) Null a) (\<lambda>r. Inr (snd r))
      else Inr a)"

text \<open>\<^verbatim>\<open>Swap\<close> exchanges storage and size; the pair is (this, vec) afterwards.\<close>

definition Swap :: "'a CUtlArray \<Rightarrow> 'a CUtlArray \<Rightarrow> 'a CUtlArray \<times> 'a CUtlArray" where
  "Swap a vec =
     (a \<lparr> m_Memory := m_Memory vec, m_Size := m_Size vec \<rparr>,
      vec \<lparr> m_Memory := m_Memory a, m_Size := m_Size a \<rparr>)"

text \<open>\<^verbatim>\<open>AddVectorToTail( CUtlArray const &src )\<close>: the argument \<^verbatim>\<open>src.Count()\<close> is
  evaluated before the call that makes space, the loop bound after it.\<close>

definition AddVectorToTail ::
  "bool \<Rightarrow> 'a \<Rightarrow> 'a array_ref \<Rightarrow> 'a CUtlArray \<Rightarrow> error + (int \<times> 'a CUtlArray)" where
  "AddVectorToTail dbg T0 src a =
     (if dbg \<and> \<not> (src \<noteq> This) then Inl AssertFailed
      else
        let base = Count a in
        bind_err (AddMultipleToTail dbg T0 (Count (deref src a)) Null a) (\<lambda>r.
        bind_err
          (iterate (count_up 0 (Count (deref src (snd r))))
             (\<lambda>i s. bind_err (Element (deref src s) i) (\<lambda>v. Assign (base + i) v s)) (snd r))
          (\<lambda>a2. Inr (base, a2))))"

text \<open>\<^verbatim>\<open>operator=( const CUtlArray &other )\<close>\<close>

definition operator_assign ::
  "bool \<Rightarrow> 'a \<Rightarrow> 'a array_ref \<Rightarrow> 'a CUtlArray \<Rightarrow> error + 'a CUtlArray" where
  "operator_assign dbg T0 other a =
     (let nCount = Count (deref other a) in
      bind_err (SetSize dbg T0 nCount a) (\<lambda>a1.
        iterate (count_up 0 nCount)
          (\<lambda>i s. bind_err (Element (deref other s) i) (\<lambda>v. Assign i v s)) a1))"

subsection \<open>Sorting\<close>

text \<open>The comparator returns a negative, zero or positive number.  The C library's
  \<^verbatim>\<open>qsort\<close> is not part of the sources; it is taken with its contract, ascending order
  by the comparator, and realised here by insertion into an ordered sequence.\<close>

fun insert_by :: "('a \<Rightarrow> 'a \<Rightarrow> int) \<Rightarrow> 'a \<Rightarrow> 'a list \<Rightarrow> 'a list" where
  "insert_by cmp x [] = [x]"
| "insert_by cmp x (y # ys) = (if cmp x y \<le> 0 then x # y # ys else y # insert_by cmp x ys)"

definition qsort :: "('a \<Rightarrow> 'a \<Rightarrow> int) \<Rightarrow> 'a list \<Rightarrow> 'a list" where
  "qsort cmp xs = foldr (insert_by cmp) xs []"

definition qsort_Base :: "('a \<Rightarrow> 'a \<Rightarrow> int) \<Rightarrow> 'a CUtlArray \<Rightarrow> error + 'a CUtlArray" where
  "qsort_Base cmp a =
     (if Count a \<le> NumAllocated a
      then (case those (take (nat (Count a)) (m_pMemory (m_Memory a))) of
              None \<Rightarrow> Inl UndefinedBehaviour
            | Some xs \<Rightarrow>
                Inr (a \<lparr> m_Memory := (m_Memory a) \<lparr> m_pMemory :=
                       map Some (qsort cmp xs) @ drop (nat (Count a)) (m_pMemory (m_Memory a)) \<rparr> \<rparr>))
      else Inl UndefinedBehaviour)"

text \<open>\<^verbatim>\<open>swap( Element( j - 1 ), Element( j ) )\<close>\<close>

definition swap_elements :: "int \<Rightarrow> int \<Rightarrow> 'a CUtlArray \<Rightarrow> error + 'a CUtlArray" where
  "swap_elements i j a =
     bind_err (Element a i) (\<lambda>x.
     bind_err (Element a j) (\<lambda>y.
     bind_err (Assign i y a) (\<lambda>a1. Assign j x a1)))"

text \<open>The body of the inner loop of the fallback, and \<^verbatim>\<open>Sort\<close> itself.  The outer loop
  is \<^verbatim>\<open>for ( int i = m_Size - 1; i >= 0; --i )\<close>, the inner one
  \<^verbatim>\<open>for ( int j = 1; j <= i; ++j )\<close>.\<close>

definition Sort_step :: "('a \<Rightarrow> 'a \<Rightarrow> int) \<Rightarrow> int \<Rightarrow> 'a CUtlArray \<Rightarrow> error + 'a CUtlArray" where
  "Sort_step pfnCompare j a =
     bind_err (Element a (j - 1)) (\<lambda>x.
     bind_err (Element a j) (\<lambda>y.
       if pfnCompare x y < 0 then swap_elements (j - 1) j a else Inr a))"

definition Sort :: "bool \<Rightarrow> ('a \<Rightarrow> 'a \<Rightarrow> int) \<Rightarrow> 'a CUtlArray \<Rightarrow> error + 'a CUtlArray" where
  "Sort dbg pfnCompare a =
     (if Count a \<le> 1 then Inr a
      else if Mem_has_Base (m_Memory a) then qsort_Base pfnCompare a
      else if dbg then Inl AssertFailed
      else iterate (count_down 0 (m_Size a))
             (\<lambda>i. iterate (count_up 1 (i + 1)) (Sort_step pfnCompare)) a)"

subsection \<open>The logical sequence and the representation invariant\<close>

text \<open>The elements a caller sees at the logical indices \<open>0 ..< m_Size\<close>.\<close>

definition contents :: "'a CUtlArray \<Rightarrow> 'a list" where
  "contents a = map the (take (nat (m_Size a)) (m_pMemory (m_Memory a)))"

text \<open>The invariant of section 3: \<open>0 \<le> size \<le> capacity\<close>, a live element in every slot
  below \<open>size\<close> and none in a slot from \<open>size\<close> on.  The growth increment of the
  storage policy is not negative.\<close>

definition array_inv :: "'a CUtlArray \<Rightarrow> bool" where
  "array_inv a =
     (0 \<le> m_Size a \<and> m_Size a \<le> NumAllocated a \<and> 0 \<le> m_nGrowSize (m_Memory a) \<and>
      list_all (\<lambda>x. x \<noteq> None) (take (nat (m_Size a)) (m_pMemory (m_Memory a))) \<and>
      list_all (\<lambda>x. x = None) (drop (nat (m_Size a)) (m_pMemory (m_Memory a))))"

subsection \<open>Notions used in the statements and proofs\<close>

text \<open>An array given by its fields, and the array in canonical form: the elements
  \<open>xs\<close> live in the first slots, followed by \<open>spare\<close> slots of raw storage.\<close>

definition mk_array :: "policy \<Rightarrow> int \<Rightarrow> nat \<Rightarrow> 'a option list \<Rightarrow> int \<Rightarrow> 'a CUtlArray" where
  "mk_array p g ev L s =
     \<lparr> m_Memory = \<lparr> m_pMemory = L, m_nGrowSize = g, m_policy = p, grow_events = ev \<rparr>,
       m_Size = s \<rparr>"

definition array_of :: "policy \<Rightarrow> int \<Rightarrow> nat \<Rightarrow> 'a list \<Rightarrow> nat \<Rightarrow> 'a CUtlArray" where
  "array_of p g ev xs spare =
     mk_array p g ev (map Some xs @ replicate spare None) (int (length xs))"

text \<open>Slots \<open>start ..< start + n\<close> of \<open>L\<close> replaced by \<open>f 0, f 1, ...\<close>.\<close>

definition overwrite :: "nat \<Rightarrow> nat \<Rightarrow> (nat \<Rightarrow> 'a option) \<Rightarrow> 'a option list \<Rightarrow> 'a option list" where
  "overwrite start n f L =
     map (\<lambda>j. if start \<le> j \<and> j < start + n then f (j - start) else L ! j) [0..<length L]"

text \<open>The new elements that an insertion of \<open>k\<close> elements from the source \<open>src\<close>
  places: copies of the first \<open>k\<close> elements of the caller's array, or default-constructed
  elements when there is no source.\<close>

definition new_elements :: "'a \<Rightarrow> nat \<Rightarrow> 'a array_ptr \<Rightarrow> 'a list" where
  "new_elements T0 k src = (case src of Apart d ys \<Rightarrow> take k ys | _ \<Rightarrow> replicate k T0)"

text \<open>Spare capacity and number of growth events after \<^verbatim>\<open>GrowVector(k)\<close> on a
  canonical array of \<open>n\<close> elements with \<open>r\<close> spare slots.\<close>

definition spare_after :: "int \<Rightarrow> nat \<Rightarrow> nat \<Rightarrow> nat \<Rightarrow> nat" where
  "spare_after g n r k =
     (if r < k
      then r + nat (Mem_new_capacity (int (n + r)) g (int k - int r) - int (n + r)) - k
      else r - k)"

definition events_after :: "nat \<Rightarrow> nat \<Rightarrow> nat \<Rightarrow> nat" where
  "events_after ev r k = (if r < k then Suc ev else ev)"

text \<open>A three-way comparator on integers, as a caller would pass to \<^verbatim>\<open>Sort\<close>.\<close>

definition cmp_int :: "int \<Rightarrow> int \<Rightarrow> int" where
  "cmp_int x y = (if x < y then - 1 else if x = y then 0 else 1)"

subsection \<open>The public mutating operations as one interface\<close>

text \<open>One constructor per public mutating method of \<^verbatim>\<open>CUtlArray\<close>; \<open>perform\<close> calls
  the method and keeps the array it leaves (a returned index or flag is dropped).  For
  \<^verbatim>\<open>Swap\<close>, \<^verbatim>\<open>AddVectorToTail\<close> and \<^verbatim>\<open>operator=\<close> the argument is another array
  object.\<close>

datatype 'a operation =
    Op_InsertBefore_default int
  | Op_InsertBefore int "'a elem_ref"
  | Op_AddToHead_default
  | Op_AddToHead "'a elem_ref"
  | Op_AddToTail_default
  | Op_AddToTail "'a elem_ref"
  | Op_InsertAfter_default int
  | Op_InsertAfter int "'a elem_ref"
  | Op_AddMultipleToHead int
  | Op_AddMultipleToTail int "'a array_ptr"
  | Op_InsertMultipleBefore int int "'a array_ptr"
  | Op_InsertMultipleAfter int int
  | Op_SetCount int
  | Op_SetSize int
  | Op_CopyArray "'a array_ptr" int
  | Op_Swap "'a CUtlArray"
  | Op_AddVectorToTail "'a CUtlArray"
  | Op_EnsureCapacity int
  | Op_EnsureCount int
  | Op_FastRemove int
  | Op_Remove int
  | Op_FindAndRemove 'a
  | Op_RemoveMultiple int int
  | Op_RemoveAll
  | Op_Purge
  | Op_PurgeAndDeleteElements
  | Op_Compact
  | Op_SetGrowSize int
  | Op_Sort "'a \<Rightarrow> 'a \<Rightarrow> int"
  | Op_assign "'a CUtlArray"

definition drop_result :: "error + ('r \<times> 'a CUtlArray) \<Rightarrow> error + 'a CUtlArray" where
  "drop_result m = bind_err m (\<lambda>r. Inr (snd r))"

fun perform :: "bool \<Rightarrow> 'a \<Rightarrow> 'a operation \<Rightarrow> 'a CUtlArray \<Rightarrow> error + 'a CUtlArray" where
  "perform dbg T0 (Op_InsertBefore_default i) a = drop_result (InsertBefore_default dbg T0 i a)"
| "perform dbg T0 (Op_InsertBefore i v) a = drop_result (InsertBefore dbg i v a)"
| "perform dbg T0 Op_AddToHead_default a = drop_result (AddToHead_default dbg T0 a)"
| "perform dbg T0 (Op_AddToHead v) a = drop_result (AddToHead dbg v a)"
| "perform dbg T0 Op_AddToTail_default a = drop_result (AddToTail_default dbg T0 a)"
| "perform dbg T0 (Op_AddToTail v) a = drop_result (AddToTail dbg v a)"
| "perform dbg T0 (Op_InsertAfter_default i) a = drop_result (InsertAfter_default dbg T0 i a)"
| "perform dbg T0 (Op_InsertAfter i v) a = drop_result (InsertAfter dbg i v a)"
| "perform dbg T0 (Op_AddMultipleToHead n) a = drop_result (AddMultipleToHead dbg T0 n a)"
| "perform dbg T0 (Op_AddMultipleToTail n src) a = drop_result (AddMultipleToTail dbg T0 n src a)"
| "perform dbg T0 (Op_InsertMultipleBefore i n src) a =
     drop_result (InsertMultipleBefore dbg T0 i n src a)"
| "perform dbg T0 (Op_InsertMultipleAfter i n) a = drop_result (InsertMultipleAfter dbg T0 i n a)"
| "perform dbg T0 (Op_SetCount n) a = SetCount dbg T0 n a"
| "perform dbg T0 (Op_SetSize n) a = SetSize dbg T0 n a"
| "perform dbg T0 (Op_CopyArray src n) a = CopyArray dbg T0 src n a"
| "perform dbg T0 (Op_Swap vec) a = Inr (fst (Swap a vec))"
| "perform dbg T0 (Op_AddVectorToTail b) a = drop_result (AddVectorToTail dbg T0 (Other b) a)"
| "perform dbg T0 (Op_EnsureCapacity n) a = EnsureCapacity n a"
| "perform dbg T0 (Op_EnsureCount n) a = EnsureCount dbg T0 n a"
| "perform dbg T0 (Op_FastRemove i) a = FastRemove dbg i a"
| "perform dbg T0 (Op_Remove i) a = Remove dbg i a"
| "perform dbg T0 (Op_FindAndRemove v) a = drop_result (FindAndRemove dbg v a)"
| "perform dbg T0 (Op_RemoveMultiple i n) a = RemoveMultiple dbg i n a"
| "perform dbg T0 Op_RemoveAll a = RemoveAll a"
| "perform dbg T0 Op_Purge a = Purge a"
| "perform dbg T0 Op_PurgeAndDeleteElements a = PurgeAndDeleteElements a"
| "perform dbg T0 Op_Compact a = Inr (Compact a)"
| "perform dbg T0 (Op_SetGrowSize n) a = Inr (SetGrowSize n a)"
| "perform dbg T0 (Op_Sort pfnCompare) a = Sort dbg pfnCompare a"
| "perform dbg T0 (Op_assign b) a = operator_assign dbg T0 (Other b) a"

fun perform_all ::
  "bool \<Rightarrow> 'a \<Rightarrow> 'a operation list \<Rightarrow> 'a CUtlArray \<Rightarrow> error + 'a CUtlArray" where
  "perform_all dbg T0 [] a = Inr a"
| "perform_all dbg T0 (x # xs) a = bind_err (perform dbg T0 x a) (perform_all dbg T0 xs)"

text \<open>The contract of an operation on an array of \<open>c\<close> elements: a valid index or
  insert position, a count that is not negative, a source holding the elements asked for,
  and another array that satisfies the invariant.\<close>

definition src_holds :: "int \<Rightarrow> 'a array_ptr \<Rightarrow> bool" where
  "src_holds n src = (case src of Apart d ys \<Rightarrow> n \<le> int (length ys) | _ \<Rightarrow> True)"

fun within_contract :: "'a operation \<Rightarrow> int \<Rightarrow> bool" where
  "within_contract (Op_InsertBefore_default i) c = (0 \<le> i \<and> i \<le> c)"
| "within_contract (Op_InsertBefore i v) c = (0 \<le> i \<and> i \<le> c)"
| "within_contract (Op_InsertAfter_default i) c = (- 1 \<le> i \<and> i < c)"
| "within_contract (Op_InsertAfter i v) c = (- 1 \<le> i \<and> i < c)"
| "within_contract (Op_AddMultipleToHead n) c = (0 \<le> n)"
| "within_contract (Op_AddMultipleToTail n src) c = (0 \<le> n \<and> src_holds n src)"
| "within_contract (Op_InsertMultipleBefore i n src) c =
     (0 \<le> i \<and> i \<le> c \<and> 0 \<le> n \<and> src_holds n src)"
| "within_contract (Op_InsertMultipleAfter i n) c = (- 1 \<le> i \<and> i < c \<and> 0 \<le> n)"
| "within_contract (Op_SetCount n) c = (0 \<le> n)"
| "within_contract (Op_SetSize n) c = (0 \<le> n)"
| "within_contract (Op_CopyArray src n) c = (0 \<le> n \<and> src_holds n src)"
| "within_contract (Op_Swap vec) c = array_inv vec"
| "within_contract (Op_AddVectorToTail b) c = array_inv b"
| "within_contract (Op_FastRemove i) c = (0 \<le> i \<and> i < c)"
| "within_contract (Op_Remove i) c = (0 \<le> i \<and> i < c)"
| "within_contract (Op_RemoveMultiple i n) c = (0 \<le> i \<and> 0 \<le> n \<and> i + n \<le> c)"
| "within_contract (Op_SetGrowSize n) c = (0 \<le> n)"
| "within_contract (Op_assign b) c = array_inv b"
| "within_contract x c = True"

text \<open>The operations that add elements, and the element count each one leaves when it
  starts on \<open>c\<close> elements.\<close>

fun count_after :: "'a operation \<Rightarrow> int \<Rightarrow> int option" where
  "count_after (Op_InsertBefore_default i) c = Some (c + 1)"
| "count_after (Op_InsertBefore i src) c = Some (c + 1)"
| "count_after Op_AddToHead_default c = Some (c + 1)"
| "count_after (Op_AddToHead src) c = Some (c + 1)"
| "count_after Op_AddToTail_default c = Some (c + 1)"
| "count_after (Op_AddToTail src) c = Some (c + 1)"
| "count_after (Op_InsertAfter_default i) c = Some (c + 1)"
| "count_after (Op_InsertAfter i src) c = Some (c + 1)"
| "count_after (Op_AddMultipleToHead n) c = Some (c + n)"
| "count_after (Op_AddMultipleToTail n src) c = Some (c + n)"
| "count_after (Op_InsertMultipleBefore i n src) c = Some (c + n)"
| "count_after (Op_InsertMultipleAfter i n) c = Some (c + n)"
| "count_after (Op_SetCount n) c = Some n"
| "count_after (Op_SetSize n) c = Some n"
| "count_after (Op_CopyArray src n) c = Some n"
| "count_after (Op_EnsureCount n) c = Some (max c n)"
| "count_after (Op_AddVectorToTail b) c = Some (c + Count b)"
| "count_after (Op_assign b) c = Some (Count b)"
| "count_after x c = None"

text \<open>A sequence of such operations, each within its contract, started on \<open>c\<close> elements,
  that never takes the element count past \<open>n\<close>.\<close>

fun inserts_within :: "int \<Rightarrow> 'a operation list \<Rightarrow> int \<Rightarrow> bool" where
  "inserts_within n [] c = True"
| "inserts_within n (x # xs) c =
     (case count_after x c of
        None \<Rightarrow> False
      | Some c' \<Rightarrow> within_contract x c \<and> c' \<le> n \<and> inserts_within n xs c')"

text \<open>The sources of an operation lie clear of an array with \<open>cap\<close> slots of storage: an
  element passed by reference is an object in front of or behind the storage; a source
  array is the null pointer (default construction), or an array of the caller whose
  elements asked for lie in front of or behind the storage.  The assertion of
  \<^verbatim>\<open>AddMultipleToTail\<close> wants a source in front of the storage to end strictly before
  \<^verbatim>\<open>Base()\<close>; \<^verbatim>\<open>CopyArray\<close> reads its source, which therefore is not the null
  pointer.\<close>

definition ref_clear :: "int \<Rightarrow> 'a elem_ref \<Rightarrow> bool" where
  "ref_clear cap src = (case src of Outside d v \<Rightarrow> d < 0 \<or> cap \<le> d | Inside k \<Rightarrow> False)"

fun sources_clear :: "int \<Rightarrow> 'a operation \<Rightarrow> bool" where
  "sources_clear cap (Op_InsertBefore i src) = ref_clear cap src"
| "sources_clear cap (Op_AddToHead src) = ref_clear cap src"
| "sources_clear cap (Op_AddToTail src) = ref_clear cap src"
| "sources_clear cap (Op_InsertAfter i src) = ref_clear cap src"
| "sources_clear cap (Op_AddMultipleToTail n src) =
     (case src of Null \<Rightarrow> True | Apart d ys \<Rightarrow> d + n < 0 \<or> cap \<le> d | Within k \<Rightarrow> False)"
| "sources_clear cap (Op_InsertMultipleBefore i n src) =
     (case src of Null \<Rightarrow> True | Apart d ys \<Rightarrow> d + n \<le> 0 \<or> cap \<le> d | Within k \<Rightarrow> False)"
| "sources_clear cap (Op_CopyArray src n) =
     (case src of Null \<Rightarrow> False | Apart d ys \<Rightarrow> d + n \<le> 0 \<or> cap \<le> d | Within k \<Rightarrow> False)"
| "sources_clear cap x = True"

section \<open>Basic facts\<close>

subsection \<open>Arrays given by their fields\<close>

lemma mk_array_sel [simp]:
  "m_Size (mk_array p g ev L s) = s"
  "Count (mk_array p g ev L s) = s"
  "NumAllocated (mk_array p g ev L s) = int (length L)"
  "m_pMemory (m_Memory (mk_array p g ev L s)) = L"
  "m_policy (m_Memory (mk_array p g ev L s)) = p"
  "m_nGrowSize (m_Memory (mk_array p g ev L s)) = g"
  "grow_events (m_Memory (mk_array p g ev L s)) = ev"
  "IsValidIndex (mk_array p g ev L s) i = (0 \<le> i \<and> i < s)"
  by (simp_all add: mk_array_def Count_def NumAllocated_def Mem_NumAllocated_def IsValidIndex_def)

lemma mk_array_eq [simp]:
  "(mk_array p g ev L s = mk_array p' g' ev' L' s') =
     (p = p' \<and> g = g' \<and> ev = ev' \<and> L = L' \<and> s = s')"
  by (auto simp: mk_array_def)

lemma mk_array_update [simp]:
  "(mk_array p g ev L s) \<lparr> m_Size := s' \<rparr> = mk_array p g ev L s'"
  by (simp add: mk_array_def)

lemma mk_array_surj:
  "(a :: 'a CUtlArray) =
     mk_array (m_policy (m_Memory a)) (m_nGrowSize (m_Memory a)) (grow_events (m_Memory a))
       (m_pMemory (m_Memory a)) (m_Size a)"
  by (simp add: mk_array_def)

lemma bind_err_simps [simp]:
  "bind_err (Inl e) f = Inl e" "bind_err (Inr x) f = f x"
  by (simp_all add: bind_err_def)

subsection \<open>The primitives as rewrite rules\<close>

lemma Element_mk:
  "Element (mk_array p g ev L s) i =
     (if 0 \<le> i \<and> i < int (length L)
      then (case L ! nat i of None \<Rightarrow> Inl UndefinedBehaviour | Some v \<Rightarrow> Inr v)
      else Inl UndefinedBehaviour)"
  by (simp add: Element_def Mem_slot_def Mem_in_storage_def Mem_NumAllocated_def mk_array_def)

lemma Destruct_mk:
  "Destruct i (mk_array p g ev L s) =
     (if 0 \<le> i \<and> i < int (length L) \<and> L ! nat i \<noteq> None
      then Inr (mk_array p g ev (L[nat i := None]) s) else Inl UndefinedBehaviour)"
  by (auto simp: Destruct_def Mem_slot_def Mem_in_storage_def Mem_NumAllocated_def mk_array_def
        Mem_set_slot_def split: option.splits)

lemma CopyConstruct_mk:
  "CopyConstruct i v (mk_array p g ev L s) =
     (if 0 \<le> i \<and> i < int (length L)
      then Inr (mk_array p g ev (L[nat i := Some v]) s) else Inl UndefinedBehaviour)"
  by (auto simp: CopyConstruct_def Mem_in_storage_def Mem_NumAllocated_def mk_array_def
        Mem_set_slot_def)

lemma Construct_eq: "Construct T0 i = CopyConstruct i T0"
  by (rule ext) (simp add: Construct_def)

lemma Assign_mk:
  "Assign i v (mk_array p g ev L s) =
     (if 0 \<le> i \<and> i < int (length L) \<and> L ! nat i \<noteq> None
      then Inr (mk_array p g ev (L[nat i := Some v]) s) else Inl UndefinedBehaviour)"
  by (auto simp: Assign_def Mem_slot_def Mem_in_storage_def Mem_NumAllocated_def mk_array_def
        Mem_set_slot_def split: option.splits)

lemma GrowVector_mk:
  "GrowVector num (mk_array p g ev L s) =
     (if s + num > int (length L)
      then (if p = FixedCapacity then Inl CapacityExceeded
            else Inr (mk_array p g (Suc ev)
                   (L @ replicate (nat (Mem_new_capacity (int (length L)) g
                                          (s + num - int (length L)) - int (length L))) None)
                   (s + num)))
      else Inr (mk_array p g ev L (s + num)))"
  by (simp add: GrowVector_def Mem_Grow_def Mem_NumAllocated_def mk_array_def NumAllocated_def
        Let_def)

lemma relocate_length [simp]: "length (relocate dst src n xs) = length xs"
  by (simp add: relocate_def)

lemma relocate_nth:
  "k < length xs \<Longrightarrow> relocate dst src n xs ! k =
     (if dst \<le> k \<and> k < dst + n then xs ! (src + (k - dst))
      else if src \<le> k \<and> k < src + n then None else xs ! k)"
  by (simp add: relocate_def)

lemma overwrite_length [simp]: "length (overwrite start n f L) = length L"
  by (simp add: overwrite_def)

lemma overwrite_nth:
  "j < length L \<Longrightarrow> overwrite start n f L ! j =
     (if start \<le> j \<and> j < start + n then f (j - start) else L ! j)"
  by (simp add: overwrite_def)

lemma ShiftElementsRight_mk:
  "ShiftElementsRight dbg elem num (mk_array p g ev L s) =
     (if dbg \<and> \<not> ((0 \<le> elem \<and> elem < s) \<or> s = 0 \<or> num = 0) then Inl AssertFailed
      else if s - elem - num > 0 \<and> num > 0
      then (if 0 \<le> elem \<and> s \<le> int (length L)
            then Inr (mk_array p g ev
                   (relocate (nat (elem + num)) (nat elem) (nat (s - elem - num)) L) s)
            else Inl UndefinedBehaviour)
      else Inr (mk_array p g ev L s))"
  by (auto simp: ShiftElementsRight_def IsValidIndex_def Mem_move_def Mem_NumAllocated_def
        mk_array_def Let_def)

lemma ShiftElementsLeft_mk:
  "ShiftElementsLeft dbg elem num (mk_array p g ev L s) =
     (if dbg \<and> \<not> ((0 \<le> elem \<and> elem < s) \<or> s = 0 \<or> num = 0) then Inl AssertFailed
      else if s - elem - num > 0 \<and> num > 0
      then (if 0 \<le> elem \<and> s \<le> int (length L)
            then Inr (mk_array p g ev
                   (if dbg then overwrite (nat (s - num)) (nat num) (\<lambda>j. None)
                                  (relocate (nat elem) (nat (elem + num)) (nat (s - elem - num)) L)
                    else relocate (nat elem) (nat (elem + num)) (nat (s - elem - num)) L) s)
            else Inl UndefinedBehaviour)
      else Inr (mk_array p g ev L s))"
  by (auto simp: ShiftElementsLeft_def IsValidIndex_def Mem_move_def Mem_fill_def
        Mem_NumAllocated_def mk_array_def Let_def overwrite_def)

subsection \<open>Loops\<close>

lemma iterate_append: "iterate (xs @ ys) f s = bind_err (iterate xs f s) (iterate ys f)"
  by (induction xs arbitrary: s) (auto split: sum.splits)

lemma count_up_Suc: "count_up lo (lo + int (Suc k)) = count_up lo (lo + int k) @ [lo + int k]"
proof -
  have "nat (lo + int (Suc k) - lo) = Suc k" "nat (lo + int k - lo) = k" by arith+
  then show ?thesis unfolding count_up_def by simp
qed

lemma count_up_empty [simp]: "hi \<le> lo \<Longrightarrow> count_up lo hi = []"
  by (simp add: count_up_def)

lemma count_down_Suc:
  "count_down lo (lo + int (Suc k)) = (lo + int k) # count_down lo (lo + int k)"
  unfolding count_down_def count_up_Suc by simp

lemma count_down_empty [simp]: "hi \<le> lo \<Longrightarrow> count_down lo hi = []"
  by (simp add: count_down_def)

lemma overwrite_0 [simp]: "overwrite start 0 f L = L"
  by (intro nth_equalityI) (auto simp: overwrite_nth)

lemma overwrite_Suc:
  "start + n < length L \<Longrightarrow>
   (overwrite start n f L)[start + n := f n] = overwrite start (Suc n) f L"
  by (intro nth_equalityI) (auto simp: overwrite_nth nth_list_update)

lemma overwrite_Suc_down:
  "start + n < length L \<Longrightarrow>
   overwrite start n f (L[start + n := f n]) = overwrite start (Suc n) f L"
  by (intro nth_equalityI) (auto simp: overwrite_nth nth_list_update)

lemma Destruct_loop:
  "i + k \<le> length L \<Longrightarrow> (\<forall>j. i \<le> j \<and> j < i + k \<longrightarrow> L ! j \<noteq> None) \<Longrightarrow>
   iterate (count_down (int i) (int i + int k)) Destruct (mk_array p g ev L s)
     = Inr (mk_array p g ev (overwrite i k (\<lambda>j. None) L) s)"
proof (induction k arbitrary: L)
  case 0
  then show ?case by simp
next
  case (Suc k)
  have live: "L ! (i + k) \<noteq> None" using Suc.prems by simp
  have step: "Destruct (int i + int k) (mk_array p g ev L s)
                = Inr (mk_array p g ev (L[i + k := None]) s)"
    using Suc.prems live by (simp add: Destruct_mk nat_add_distrib)
  have rest: "iterate (count_down (int i) (int i + int k)) Destruct
                (mk_array p g ev (L[i + k := None]) s)
      = Inr (mk_array p g ev (overwrite i k (\<lambda>j. None) (L[i + k := None])) s)"
    using Suc.prems by (intro Suc.IH) (auto simp: nth_list_update)
  show ?case
    unfolding count_down_Suc using Suc.prems
    by (simp add: step rest overwrite_Suc_down [where f = "\<lambda>j. None"])
qed

lemma Construct_loop:
  "i + k \<le> length L \<Longrightarrow>
   iterate (count_up 0 (int k)) (\<lambda>j. Construct T0 (int i + j)) (mk_array p g ev L s)
     = Inr (mk_array p g ev (overwrite i k (\<lambda>j. Some T0) L) s)"
proof (induction k)
  case 0
  then show ?case by simp
next
  case (Suc k)
  have up: "count_up 0 (int (Suc k)) = count_up 0 (int k) @ [int k]"
    using count_up_Suc [of 0 k] by simp
  show ?case
    unfolding up iterate_append using Suc
    by (simp add: Construct_eq CopyConstruct_mk nat_add_distrib
          overwrite_Suc [where f = "\<lambda>j. Some T0"])
qed

lemma Assign_loop:
  "i + k \<le> length L \<Longrightarrow> (\<forall>j. i \<le> j \<and> j < i + k \<longrightarrow> L ! j \<noteq> None) \<Longrightarrow>
   (\<forall>j < k. rd (int j) = Inr (f j)) \<Longrightarrow>
   iterate (count_up 0 (int k)) (\<lambda>j s. bind_err (rd j) (\<lambda>v. Assign (int i + j) v s))
       (mk_array p g ev L s)
     = Inr (mk_array p g ev (overwrite i k (\<lambda>j. Some (f j)) L) s)"
proof (induction k)
  case 0
  then show ?case by simp
next
  case (Suc k)
  have up: "count_up 0 (int (Suc k)) = count_up 0 (int k) @ [int k]"
    using count_up_Suc [of 0 k] by simp
  have live: "overwrite i k (\<lambda>j. Some (f j)) L ! (i + k) \<noteq> None"
    using Suc.prems by (simp add: overwrite_nth)
  show ?case
    unfolding up iterate_append using Suc live
    by (simp add: Assign_mk nat_add_distrib overwrite_Suc [where f = "\<lambda>j. Some (f j)"])
qed

subsection \<open>Canonical arrays\<close>

lemma Mem_new_capacity_ge:
  assumes "0 \<le> g" "0 < n" "0 \<le> cap"
  shows "cap + n \<le> Mem_new_capacity cap g n"
proof (cases "g = 0")
  case True
  then show ?thesis by (simp add: Mem_new_capacity_def)
next
  case False
  with assms have g: "0 < g" by simp
  have "(n + g - 1) div g * g = (n + g - 1) - (n + g - 1) mod g"
    by (simp add: minus_mod_eq_div_mult)
  moreover have "(n + g - 1) mod g \<le> g - 1"
    using g pos_mod_bound [of g "n + g - 1"] by linarith
  ultimately have "n \<le> (n + g - 1) div g * g" by linarith
  with False show ?thesis by (simp add: Mem_new_capacity_def)
qed

lemma all_live: "list_all (\<lambda>x. x \<noteq> None) L \<Longrightarrow> map Some (map the L) = L"
  by (induction L) auto

lemma all_raw: "list_all (\<lambda>x. x = None) L \<Longrightarrow> L = replicate (length L) None"
  by (induction L) auto

lemma contents_array_of [simp]: "contents (array_of p g ev xs r) = xs"
  by (simp add: contents_def array_of_def comp_def)

lemma array_of_sel [simp]:
  "m_Size (array_of p g ev xs r) = int (length xs)"
  "Count (array_of p g ev xs r) = int (length xs)"
  "NumAllocated (array_of p g ev xs r) = int (length xs + r)"
  "m_policy (m_Memory (array_of p g ev xs r)) = p"
  "m_nGrowSize (m_Memory (array_of p g ev xs r)) = g"
  "grow_events (m_Memory (array_of p g ev xs r)) = ev"
  by (simp_all add: array_of_def)

lemma array_inv_array_of [simp]: "array_inv (array_of p g ev xs r) = (0 \<le> g)"
  by (auto simp: array_inv_def array_of_def list_all_iff)

lemma array_inv_canon:
  assumes "array_inv a"
  shows "a = array_of (m_policy (m_Memory a)) (m_nGrowSize (m_Memory a)) (grow_events (m_Memory a))
               (contents a) (nat (NumAllocated a - m_Size a))"
proof -
  let ?L = "m_pMemory (m_Memory a)" and ?n = "nat (m_Size a)"
  have n: "m_Size a = int ?n" "?n \<le> length ?L"
    using assms by (auto simp: array_inv_def NumAllocated_def Mem_NumAllocated_def)
  have "take ?n ?L = map Some (contents a)"
    using assms all_live [of "take ?n ?L"] by (simp add: array_inv_def contents_def)
  moreover have "drop ?n ?L = replicate (length ?L - ?n) None"
    using assms all_raw [of "drop ?n ?L"] by (simp add: array_inv_def)
  ultimately have L: "?L = map Some (contents a) @ replicate (length ?L - ?n) None"
    by (metis append_take_drop_id)
  have len: "length (contents a) = ?n" using n by (simp add: contents_def)
  have r: "nat (NumAllocated a - m_Size a) = length ?L - ?n"
    using n unfolding NumAllocated_def Mem_NumAllocated_def by linarith
  show ?thesis
    apply (subst mk_array_surj [of a])
    unfolding array_of_def r len
    using L n by simp
qed

lemma GrowVector_canon:
  assumes "0 \<le> g" "p \<noteq> FixedCapacity \<or> k \<le> r"
  shows "GrowVector (int k) (array_of p g ev xs r) =
           Inr (mk_array p g (events_after ev r k)
                  (map Some xs @ replicate (k + spare_after g (length xs) r k) None)
                  (int (length xs + k)))"
proof (cases "r < k")
  case True
  let ?n = "length xs"
  let ?e = "nat (Mem_new_capacity (int (?n + r)) g (int k - int r) - int (?n + r))"
  have "int (?n + r) + (int k - int r) \<le> Mem_new_capacity (int (?n + r)) g (int k - int r)"
    using True assms by (intro Mem_new_capacity_ge) auto
  then have e: "k - r \<le> ?e" by linarith
  then have sp: "k + spare_after g ?n r k = r + ?e"
    using True by (simp add: spare_after_def)
  have arith: "int ?n + int k - (int ?n + int r) = int k - int r" by simp
  show ?thesis
    unfolding sp using True assms
    by (simp add: array_of_def GrowVector_mk events_after_def arith replicate_add)
next
  case False
  then show ?thesis
    by (simp add: array_of_def GrowVector_mk events_after_def spare_after_def)
qed

lemma nat_int_diff: "nat (int a - int b) = a - b"
  by arith

lemma relocate_right:
  assumes "i \<le> length xs"
  shows "relocate (i + k) i (length xs - i) (map Some xs @ replicate (k + r) None)
       = map Some (take i xs) @ replicate k None @ map Some (drop i xs) @ replicate r None"
  using assms
  by (intro nth_equalityI) (auto simp: relocate_nth nth_append min_def)

lemma relocate_left:
  assumes "i + k \<le> length xs"
  shows "relocate i (i + k) (length xs - (i + k))
           (map Some (take i xs) @ replicate k None @ map Some (drop (i + k) xs) @ replicate r None)
       = map Some (take i xs @ drop (i + k) xs) @ replicate (k + r) None"
  using assms
  by (intro nth_equalityI) (auto simp: relocate_nth nth_append min_def)

lemma overwrite_middle:
  "length A = i \<Longrightarrow> length B = k \<Longrightarrow> overwrite i k f (A @ B @ C) = A @ map f [0..<k] @ C"
  by (intro nth_equalityI) (auto simp: overwrite_nth nth_append)

lemma overwrite_raw_id:
  "(\<forall>j. i \<le> j \<and> j < i + k \<and> j < length L \<longrightarrow> L ! j = None) \<Longrightarrow> overwrite i k (\<lambda>j. None) L = L"
  by (intro nth_equalityI) (auto simp: overwrite_nth)

lemma map_const_upt: "map (\<lambda>j. c) [0..<k] = replicate k c"
  by (induction k) (auto simp: replicate_append_same)

lemma ShiftElementsRight_canon:
  assumes "i \<le> length xs"
  shows "ShiftElementsRight dbg (int i) (int k)
           (mk_array p g ev (map Some xs @ replicate (k + r) None) (int (length xs + k)))
       = Inr (mk_array p g ev
                (map Some (take i xs) @ replicate k None @ map Some (drop i xs) @ replicate r None)
                (int (length xs + k)))"
proof (cases "i < length xs \<and> 0 < k")
  case True
  have n2: "nat (int i + int k) = i + k" by linarith
  show ?thesis
    using True assms by (simp add: ShiftElementsRight_mk nat_int_diff n2 relocate_right)
next
  case False
  then consider "k = 0" | "i = length xs" "0 < k" using assms by linarith
  then show ?thesis
    by cases (simp_all add: ShiftElementsRight_mk replicate_add flip: map_append)
qed

lemma ShiftElementsLeft_canon:
  assumes "i + k \<le> length xs"
  shows "ShiftElementsLeft dbg (int i) (int k)
           (mk_array p g ev
              (map Some (take i xs) @ replicate k None @ map Some (drop (i + k) xs) @ replicate r None)
              (int (length xs)))
       = Inr (mk_array p g ev (map Some (take i xs @ drop (i + k) xs) @ replicate (k + r) None)
                (int (length xs)))"
proof (cases "i + k < length xs \<and> 0 < k")
  case True
  have n: "nat (int (length xs) - int i - int k) = length xs - (i + k)" by linarith
  have n2: "nat (int i + int k) = i + k" by linarith
  have raw: "overwrite (length xs - k) k (\<lambda>j. None)
               (map Some (take i xs @ drop (i + k) xs) @ replicate (k + r) None)
             = map Some (take i xs @ drop (i + k) xs) @ replicate (k + r) None"
    using True by (intro overwrite_raw_id) (auto simp: nth_append)
  show ?thesis
    using True assms
    by (simp add: ShiftElementsLeft_mk n n2 nat_int_diff relocate_left raw del: map_append)
next
  case False
  then consider "k = 0" | "i + k = length xs" "0 < k" using assms by linarith
  then show ?thesis
    by cases (simp_all add: ShiftElementsLeft_mk replicate_add flip: map_append)
qed

subsection \<open>Insertion of one element\<close>

lemma update_middle: "length A = i \<Longrightarrow> (A @ x # C)[i := y] = A @ y # C"
  by (simp add: list_update_append)

lemma InsertBefore_canon:
  assumes "0 \<le> g" "i \<le> length xs" "p \<noteq> FixedCapacity \<or> 0 < r"
    and "d < 0 \<or> int (length xs) \<le> d"
  shows "InsertBefore dbg (int i) (Outside d v) (array_of p g ev xs r) =
           Inr (int i, array_of p g (events_after ev r 1) (take i xs @ v # drop i xs)
                         (spare_after g (length xs) r 1))"
proof -
  have grow: "GrowVector 1 (array_of p g ev xs r) =
           Inr (mk_array p g (events_after ev r 1)
                  (map Some xs @ replicate (1 + spare_after g (length xs) r 1) None)
                  (int (length xs + 1)))"
    using GrowVector_canon [of g p 1 r ev xs] assms by (simp add: Suc_le_eq)
  have shift: "ShiftElementsRight dbg (int i) 1
           (mk_array p g (events_after ev r 1)
              (map Some xs @ replicate (1 + spare_after g (length xs) r 1) None)
              (int (length xs + 1)))
       = Inr (mk_array p g (events_after ev r 1)
                (map Some (take i xs) @ replicate 1 None @ map Some (drop i xs)
                   @ replicate (spare_after g (length xs) r 1) None)
                (int (length xs + 1)))"
    using ShiftElementsRight_canon [OF assms(2), of dbg 1] by simp
  have upd: "(map Some (take i xs) @ replicate 1 None @ map Some (drop i xs)
                   @ replicate (spare_after g (length xs) r 1) None)[i := Some v]
           = map Some (take i xs @ v # drop i xs) @ replicate (spare_after g (length xs) r 1) None"
    using assms(2) update_middle [of "map Some (take i xs)" i None _ "Some v"] by simp
  have cc: "CopyConstruct (int i) v
           (mk_array p g (events_after ev r 1)
              (map Some (take i xs) @ replicate 1 None @ map Some (drop i xs)
                 @ replicate (spare_after g (length xs) r 1) None)
              (int (length xs + 1)))
       = Inr (mk_array p g (events_after ev r 1)
           ((map Some (take i xs) @ replicate 1 None @ map Some (drop i xs)
                 @ replicate (spare_after g (length xs) r 1) None)[i := Some v])
              (int (length xs + 1)))"
    using assms(2) by (simp add: CopyConstruct_mk)
  have fin: "mk_array p g (events_after ev r 1)
               (map Some (take i xs @ v # drop i xs) @ replicate (spare_after g (length xs) r 1) None)
               (int (length xs + 1))
             = array_of p g (events_after ev r 1) (take i xs @ v # drop i xs)
                 (spare_after g (length xs) r 1)"
    using assms(2) by (simp add: array_of_def)
  have pre: "int i = Count (array_of p g ev xs r) \<or> IsValidIndex (array_of p g ev xs r) (int i)"
    using assms(2) by (auto simp: array_of_def)
  have nil: "not_in_list (array_of p g ev xs r) (Outside d v)"
    using assms(4) by (auto simp: not_in_list_def array_of_def Count_def)
  have rd: "\<And>a2. ref_read (array_of p g ev xs r) (Outside d v) a2 = Inr v"
    by (simp add: ref_read_def)
  show ?thesis
    unfolding InsertBefore_def grow bind_err_simps rd shift cc upd fin
    using pre nil by simp
qed

text \<open>A call that returns has read some value through its source; the same call with
  that value in an object of the caller returns the same.\<close>

lemma InsertBefore_any_src:
  assumes "InsertBefore dbg i src a = Inr res"
  shows "\<exists>v. InsertBefore dbg i (Outside (- 1) v) a = Inr res"
proof -
  have pre: "\<not> (dbg \<and> \<not> ((i = Count a) \<or> IsValidIndex a i))"
    using assms by (auto simp: InsertBefore_def split: if_splits)
  obtain a1 where a1: "GrowVector 1 a = Inr a1"
    using assms pre by (cases "GrowVector 1 a") (auto simp: InsertBefore_def split: if_splits)
  obtain a2 where a2: "ShiftElementsRight dbg i 1 a1 = Inr a2"
    using assms pre a1
    by (cases "ShiftElementsRight dbg i 1 a1") (auto simp: InsertBefore_def split: if_splits)
  obtain v where v: "ref_read a src a2 = Inr v"
    using assms pre a1 a2
    by (cases "ref_read a src a2") (auto simp: InsertBefore_def split: if_splits)
  have "InsertBefore dbg i src a = bind_err (CopyConstruct i v a2) (\<lambda>a3. Inr (i, a3))"
    using assms pre a1 a2 v by (auto simp: InsertBefore_def split: if_splits)
  moreover have "InsertBefore dbg i (Outside (- 1) v) a
      = bind_err (CopyConstruct i v a2) (\<lambda>a3. Inr (i, a3))"
    using pre a1 a2 by (auto simp: InsertBefore_def not_in_list_def ref_read_def)
  ultimately show ?thesis using assms by metis
qed

subsection \<open>Removal\<close>

lemma slots_split:
  assumes "i + k \<le> length xs"
  shows "map Some xs @ replicate r None =
         map Some (take i xs) @ map Some (take k (drop i xs)) @ (map Some (drop (i + k) xs) @ replicate r None)"
proof -
  have "xs = take i xs @ take k (drop i xs) @ drop (i + k) xs"
    by (metis append_take_drop_id drop_drop add.commute)
  then have "map Some xs = map Some (take i xs) @ map Some (take k (drop i xs)) @ map Some (drop (i + k) xs)"
    by (metis map_append)
  then show ?thesis by simp
qed

lemma Destruct_range_canon:
  assumes "i + k \<le> length xs"
  shows "iterate (count_down (int i) (int i + int k)) Destruct
           (mk_array p g ev (map Some xs @ replicate r None) s)
       = Inr (mk_array p g ev
                (map Some (take i xs) @ replicate k None @ map Some (drop (i + k) xs) @ replicate r None) s)"
proof -
  have live: "\<forall>j. i \<le> j \<and> j < i + k \<longrightarrow> (map Some xs @ replicate r None) ! j \<noteq> None"
    using assms by (auto simp: nth_append)
  have len: "i + k \<le> length (map Some xs @ replicate r None)" using assms by simp
  have lens: "length (map Some (take i xs)) = i" "length (map Some (take k (drop i xs))) = k"
    using assms by simp_all
  have "overwrite i k (\<lambda>j. None) (map Some xs @ replicate r None)
        = map Some (take i xs) @ map (\<lambda>j. None) [0..<k] @ (map Some (drop (i + k) xs) @ replicate r None)"
    unfolding slots_split [OF assms, of r] by (rule overwrite_middle [OF lens])
  then show ?thesis
    unfolding Destruct_loop [OF len live] by (simp add: map_const_upt)
qed

lemma RemoveMultiple_canon:
  assumes "i + k \<le> length xs"
  shows "RemoveMultiple dbg (int i) (int k) (array_of p g ev xs r) =
           Inr (array_of p g ev (take i xs @ drop (i + k) xs) (k + r))"
proof -
  have fin: "mk_array p g ev (map Some (take i xs @ drop (i + k) xs) @ replicate (k + r) None)
               (int (length xs) - int k)
             = array_of p g ev (take i xs @ drop (i + k) xs) (k + r)"
    using assms by (auto simp: array_of_def)
  show ?thesis
    unfolding RemoveMultiple_def array_of_def
    using assms
    by (simp add: Destruct_range_canon [OF assms] ShiftElementsLeft_canon [OF assms] fin
          del: map_append)
qed

lemma RemoveAll_canon:
  "RemoveAll (array_of p g ev xs r) = Inr (array_of p g ev [] (length xs + r))"
proof -
  have "iterate (count_down (int 0) (int 0 + int (length xs))) Destruct
           (mk_array p g ev (map Some xs @ replicate r None) (int (length xs)))
       = Inr (mk_array p g ev
                (map Some (take 0 xs) @ replicate (length xs) None
                  @ map Some (drop (0 + length xs) xs) @ replicate r None) (int (length xs)))"
    by (rule Destruct_range_canon) simp
  then show ?thesis
    by (simp add: RemoveAll_def array_of_def replicate_add)
qed

lemma Remove_canon:
  assumes "i < length xs"
  shows "Remove dbg (int i) (array_of p g ev xs r) =
           Inr (array_of p g ev (take i xs @ drop (Suc i) xs) (Suc r))"
proof -
  let ?L1 = "map Some (take i xs) @ replicate 1 None @ map Some (drop (i + 1) xs) @ replicate r None"
  let ?L2 = "map Some (take i xs @ drop (i + 1) xs) @ replicate (1 + r) None"
  have le: "i + 1 \<le> length xs" using assms by simp
  have a: "array_of p g ev xs r = mk_array p g ev (map Some xs @ replicate r None) (int (length xs))"
    by (simp add: array_of_def)
  have d: "Destruct (int i) (mk_array p g ev (map Some xs @ replicate r None) (int (length xs)))
           = Inr (mk_array p g ev ?L1 (int (length xs)))"
    using Destruct_range_canon [OF le, of p g ev r "int (length xs)"]
      count_down_Suc [of "int i" 0]
    by (simp split: sum.splits)
  have sh: "ShiftElementsLeft dbg (int i) 1 (mk_array p g ev ?L1 (int (length xs)))
           = Inr (mk_array p g ev ?L2 (int (length xs)))"
    using ShiftElementsLeft_canon [OF le, of dbg p g ev r] by simp
  have fin: "mk_array p g ev ?L2 (int (length xs) - 1)
             = array_of p g ev (take i xs @ drop (Suc i) xs) (Suc r)"
    using assms by (auto simp: array_of_def)
  show ?thesis
    by (simp only: Remove_def a d bind_err_simps sh mk_array_update mk_array_sel fin)
qed

lemma FastRemove_mk:
  "FastRemove dbg elem (mk_array p g ev L s) =
     (if dbg \<and> \<not> (0 \<le> elem \<and> elem < s) then Inl AssertFailed
      else if 0 \<le> elem \<and> elem < int (length L) \<and> L ! nat elem \<noteq> None
      then (if s > 0
            then (if s \<le> int (length L)
                  then Inr (mk_array p g ev
                         (relocate (nat elem) (nat (s - 1)) 1 (L[nat elem := None])) (s - 1))
                  else Inl UndefinedBehaviour)
            else Inr (mk_array p g ev (L[nat elem := None]) s))
      else Inl UndefinedBehaviour)"
  by (auto simp: FastRemove_def Destruct_mk)
     (auto simp: mk_array_def Mem_move_def Mem_NumAllocated_def)

lemma FastRemove_canon:
  assumes "i < length xs"
  shows "FastRemove dbg (int i) (array_of p g ev xs r) =
           Inr (array_of p g ev
                  (if i = length xs - 1 then butlast xs else (butlast xs)[i := last xs]) (Suc r))"
proof -
  let ?n = "length xs"
  let ?L = "map Some xs @ replicate r None"
  let ?ys = "if i = ?n - 1 then butlast xs else (butlast xs)[i := last xs]"
  have ne: "xs \<noteq> []" using assms by auto
  have n1: "nat (int ?n - 1) = ?n - 1" by simp
  have xs_last: "xs ! (?n - 1) = last xs" using ne by (simp add: last_conv_nth)
  have L': "relocate i (?n - 1) 1 (?L[i := None]) = map Some ?ys @ replicate (Suc r) None"
    using assms xs_last
    by (intro nth_equalityI)
       (auto simp: relocate_nth nth_append nth_list_update nth_butlast less_Suc_eq nth_Cons')
  have fin: "mk_array p g ev (map Some ?ys @ replicate (Suc r) None) (int ?n - 1)
             = array_of p g ev ?ys (Suc r)"
    using assms ne by (auto simp: array_of_def)
  have a: "array_of p g ev xs r = mk_array p g ev ?L (int ?n)"
    by (simp add: array_of_def)
  have live: "?L ! i \<noteq> None" using assms by (simp add: nth_append)
  have "FastRemove dbg (int i) (mk_array p g ev ?L (int ?n))
        = Inr (mk_array p g ev (relocate i (?n - 1) 1 (?L[i := None])) (int ?n - 1))"
    using assms ne live by (simp add: FastRemove_mk n1)
  then show ?thesis
    unfolding a L' fin .
qed

subsection \<open>Purge and search\<close>

lemma Purge_canon:
  "Purge (array_of p g ev xs r) =
     Inr (array_of p g ev [] (if p = FixedCapacity then length xs + r else 0))"
  by (simp add: Purge_def RemoveAll_canon) (simp add: array_of_def mk_array_def Mem_Purge_def)

lemma Find_loop_canon:
  "Find_loop (map (\<lambda>k. int (length pre + k)) [0..<length xs]) (array_of p g ev (pre @ xs) r) v
     = Inr (if v \<in> set xs then int (length pre + length (takeWhile (\<lambda>x. x \<noteq> v) xs)) else - 1)"
proof (induction xs arbitrary: pre)
  case Nil
  then show ?case by simp
next
  case (Cons x xs)
  have idx: "map (\<lambda>k. int (length pre + k)) [0..<length (x # xs)]
             = int (length pre) # map (\<lambda>k. int (length (pre @ [x]) + k)) [0..<length xs]"
    by (simp add: upt_conv_Cons map_Suc_upt [symmetric] del: upt_Suc)
  have el: "Element (array_of p g ev (pre @ x # xs) r) (int (length pre)) = Inr x"
    by (simp add: array_of_def Element_mk nth_append)
  show ?case
    unfolding idx Find_loop.simps el bind_err_simps
    using Cons.IH [of "pre @ [x]"] by simp
qed

lemma Find_canon:
  "Find (array_of p g ev xs r) v
     = Inr (if v \<in> set xs then int (length (takeWhile (\<lambda>x. x \<noteq> v) xs)) else - 1)"
  using Find_loop_canon [of "[]" xs p g ev r v]
  by (simp add: Find_def count_up_def)

lemma remove1_takeWhile:
  "v \<in> set xs \<Longrightarrow>
   take (length (takeWhile (\<lambda>x. x \<noteq> v) xs)) xs @ drop (Suc (length (takeWhile (\<lambda>x. x \<noteq> v) xs))) xs
     = remove1 v xs"
  by (induction xs) auto

lemma first_index_less:
  "v \<in> set xs \<Longrightarrow> length (takeWhile (\<lambda>x. x \<noteq> v) xs) < length xs"
  by (induction xs) auto

lemma FindAndRemove_canon:
  "FindAndRemove dbg v (array_of p g ev xs r) =
     (if v \<in> set xs then Inr (True, array_of p g ev (remove1 v xs) (Suc r))
      else Inr (False, array_of p g ev xs r))"
proof (cases "v \<in> set xs")
  case True
  let ?i = "length (takeWhile (\<lambda>x. x \<noteq> v) xs)"
  have i: "?i < length xs"
    using True by (rule first_index_less)
  show ?thesis
    using True by (simp add: FindAndRemove_def Find_canon Remove_canon [OF i] remove1_takeWhile)
next
  case False
  then show ?thesis by (simp add: FindAndRemove_def Find_canon)
qed

lemma array_inv_obtain:
  assumes "array_inv a"
  obtains p g ev xs r where "a = array_of p g ev xs r" and "0 \<le> g"
proof -
  have "a = array_of (m_policy (m_Memory a)) (m_nGrowSize (m_Memory a)) (grow_events (m_Memory a))
               (contents a) (nat (NumAllocated a - m_Size a))"
    by (rule array_inv_canon [OF assms])
  moreover have "0 \<le> m_nGrowSize (m_Memory a)" using assms by (simp add: array_inv_def)
  ultimately show thesis using that by blast
qed

lemma int_index_obtain:
  assumes "0 \<le> i" and "i < int n"
  obtains k where "i = int k" and "k < n"
  using assms that [of "nat i"] by simp

subsection \<open>Insertion of several elements, copies and appends\<close>

lemma InsertMultipleBefore_canon:
  assumes "0 \<le> g" "i \<le> length xs" "p \<noteq> FixedCapacity \<or> k \<le> r"
    and "case src of Null \<Rightarrow> True | Apart d ys \<Rightarrow> k \<le> length ys | Within c \<Rightarrow> False"
  shows "InsertMultipleBefore dbg T0 (int i) (int k) src (array_of p g ev xs r) =
           Inr (int i, array_of p g (events_after ev r k)
                  (take i xs @ new_elements T0 k src @ drop i xs)
                  (spare_after g (length xs) r k))"
proof (cases "k = 0")
  case True
  then show ?thesis
    using assms(4)
    by (cases src)
       (simp_all add: InsertMultipleBefore_def events_after_def spare_after_def new_elements_def)
next
  case False
  let ?ev = "events_after ev r k" and ?sp = "spare_after g (length xs) r k"
  let ?s = "int (length xs + k)"
  let ?A = "map Some (take i xs)" and ?C = "map Some (drop i xs) @ replicate ?sp None"
  let ?new = "new_elements T0 k src" and ?a0 = "array_of p g ev xs r"
  have pre: "int i = Count (array_of p g ev xs r) \<or> IsValidIndex (array_of p g ev xs r) (int i)"
    using assms(2) by (auto simp: array_of_def)
  have grow: "GrowVector (int k) (array_of p g ev xs r) =
           Inr (mk_array p g ?ev (map Some xs @ replicate (k + ?sp) None) ?s)"
    by (rule GrowVector_canon [OF assms(1,3)])
  have shift: "ShiftElementsRight dbg (int i) (int k)
           (mk_array p g ?ev (map Some xs @ replicate (k + ?sp) None) ?s)
       = Inr (mk_array p g ?ev (?A @ replicate k None @ ?C) ?s)"
    by (rule ShiftElementsRight_canon [OF assms(2)])
  have lens: "length ?A = i" "length (replicate k (None :: 'a option)) = k"
    using assms(2) by simp_all
  have inl: "i + k \<le> length (?A @ replicate k None @ ?C)" using assms(2) by simp
  have con: "iterate (count_up 0 (int k)) (\<lambda>j. Construct T0 (int i + j))
           (mk_array p g ?ev (?A @ replicate k None @ ?C) ?s)
       = Inr (mk_array p g ?ev (?A @ replicate k (Some T0) @ ?C) ?s)"
    unfolding Construct_loop [OF inl] overwrite_middle [OF lens] map_const_upt ..
  have lens2: "length ?A = i" "length (replicate k (Some T0)) = k"
    using assms(2) by simp_all
  have inl2: "i + k \<le> length (?A @ replicate k (Some T0) @ ?C)" using assms(2) by simp
  have live2: "\<forall>j. i \<le> j \<and> j < i + k \<longrightarrow> (?A @ replicate k (Some T0) @ ?C) ! j \<noteq> None"
    using assms(2) by (auto simp: nth_append)
  have copy: "(if src \<noteq> Null
               then iterate (count_up 0 (int k))
                      (\<lambda>j s. bind_err (ptr_read ?a0 src j s) (\<lambda>v. Assign (int i + j) v s))
                      (mk_array p g ?ev (?A @ replicate k (Some T0) @ ?C) ?s)
               else Inr (mk_array p g ?ev (?A @ replicate k (Some T0) @ ?C) ?s))
       = Inr (mk_array p g ?ev (?A @ map Some ?new @ ?C) ?s)"
  proof (cases src)
    case Null
    then show ?thesis by (simp add: new_elements_def)
  next
    case (Apart d ys)
    then have kys: "k \<le> length ys" using assms(4) by simp
    have rd: "\<forall>j<k. list_read ys (int j) = Inr (ys ! j)"
      using kys by (simp add: list_read_def)
    have body: "(\<lambda>j s. bind_err (ptr_read ?a0 (Apart d ys) j s) (\<lambda>v. Assign (int i + j) v s))
              = (\<lambda>j s. bind_err (list_read ys j) (\<lambda>v. Assign (int i + j) v s))"
      by (simp add: ptr_read_def)
    have "map (\<lambda>j. Some (ys ! j)) [0..<k] = map Some (take k ys)"
      using kys by (intro nth_equalityI) simp_all
    then show ?thesis
      unfolding Apart body Assign_loop [OF inl2 live2 rd] overwrite_middle [OF lens2]
      by (simp add: new_elements_def)
  next
    case (Within c)
    then show ?thesis using assms(4) by simp
  qed
  have fin: "mk_array p g ?ev (?A @ map Some ?new @ ?C) ?s
             = array_of p g ?ev (take i xs @ ?new @ drop i xs) ?sp"
    using assms(2,4) by (cases src) (auto simp: array_of_def new_elements_def)
  show ?thesis
    unfolding InsertMultipleBefore_def grow bind_err_simps shift con copy fin
    using False pre by simp
qed

lemma AddMultipleToTail_canon:
  assumes "0 \<le> g" "p \<noteq> FixedCapacity \<or> k \<le> r"
    and "case src of Null \<Rightarrow> True
         | Apart d ys \<Rightarrow> k \<le> length ys \<and> (d + int k < 0 \<or> int (length xs) \<le> d)
         | Within c \<Rightarrow> False"
  shows "AddMultipleToTail dbg T0 (int k) src (array_of p g ev xs r) =
           Inr (int (length xs), array_of p g (events_after ev r k)
                  (xs @ new_elements T0 k src)
                  (spare_after g (length xs) r k))"
proof -
  have src: "case src of Null \<Rightarrow> True | Apart d ys \<Rightarrow> k \<le> length ys | Within c \<Rightarrow> False"
    using assms(3) by (cases src) simp_all
  have nil: "not_in_list_multiple (array_of p g ev xs r) src (int k)"
    using assms(3) by (cases src) (auto simp: not_in_list_multiple_def array_of_def Count_def)
  show ?thesis
    using InsertMultipleBefore_canon [OF assms(1) le_refl assms(2) src,
        where xs = xs and dbg = dbg and ?T0.0 = T0 and ev = ev] nil
    by (simp add: AddMultipleToTail_def)
qed

lemma SetCount_canon:
  assumes "0 \<le> g" "p \<noteq> FixedCapacity \<or> k \<le> length xs + r"
  shows "SetCount dbg T0 (int k) (array_of p g ev xs r) =
           Inr (array_of p g (events_after ev (length xs + r) k) (replicate k T0)
                  (spare_after g 0 (length xs + r) k))"
  using AddMultipleToTail_canon [OF assms(1), where p = p and k = k and r = "length xs + r"
      and src = Null and dbg = dbg and ?T0.0 = T0 and ev = ev and xs = "[]"] assms(2)
  by (simp add: SetCount_def RemoveAll_canon new_elements_def)

lemma Assign_loop0:
  assumes "k \<le> length L" "\<forall>j<k. L ! j \<noteq> None" "\<forall>j<k. rd (int j) = Inr (f j)"
  shows "iterate (count_up 0 (int k)) (\<lambda>j s. bind_err (rd j) (\<lambda>v. Assign j v s))
           (mk_array p g ev L s)
         = Inr (mk_array p g ev (overwrite 0 k (\<lambda>j. Some (f j)) L) s)"
  using Assign_loop [of 0 k L rd f p g ev s] assms by simp

lemma overwrite_prefix:
  "length B = k \<Longrightarrow> overwrite 0 k f (B @ C) = map f [0..<k] @ C"
  using overwrite_middle [of "[]" 0 B k f C] by simp

lemma map_nth_take: "k \<le> length ys \<Longrightarrow> map (\<lambda>j. Some (ys ! j)) [0..<k] = map Some (take k ys)"
  by (intro nth_equalityI) simp_all

lemma copy_loop_canon:
  assumes "\<forall>j<k. rd (int j) = Inr (ys ! j)" "k \<le> length ys"
  shows "iterate (count_up 0 (int k)) (\<lambda>j s. bind_err (rd j) (\<lambda>v. Assign j v s))
           (array_of p g ev (replicate k T0) sp)
         = Inr (array_of p g ev (take k ys) sp)"
proof -
  have k: "k \<le> length (map Some (replicate k T0) @ replicate sp None)" by simp
  have live: "\<forall>j<k. (map Some (replicate k T0) @ replicate sp None) ! j \<noteq> None"
    by (simp add: nth_append)
  have len: "length (map Some (replicate k T0)) = k" by simp
  show ?thesis
    unfolding array_of_def Assign_loop0 [OF k live assms(1)] overwrite_prefix [OF len]
      map_nth_take [OF assms(2)]
    using assms(2) by simp
qed

lemma CopyArray_canon:
  assumes "0 \<le> g" "p \<noteq> FixedCapacity \<or> k \<le> length xs + r" "k \<le> length ys"
    and "d + int k \<le> 0 \<or> int (length xs) \<le> d"
  shows "CopyArray dbg T0 (Apart d ys) (int k) (array_of p g ev xs r) =
           Inr (array_of p g (events_after ev (length xs + r) k) (take k ys)
                  (spare_after g 0 (length xs + r) k))"
proof -
  have rd: "\<forall>j<k. list_read ys (int j) = Inr (ys ! j)"
    using assms(3) by (simp add: list_read_def)
  have body: "(\<lambda>j s. bind_err (ptr_read (array_of p g ev xs r) (Apart d ys) j s)
                         (\<lambda>v. Assign j v s))
            = (\<lambda>j s. bind_err (list_read ys j) (\<lambda>v. Assign j v s))"
    by (simp add: ptr_read_def)
  have nil: "no_overlap (array_of p g ev xs r) (Apart d ys) (int k)"
    using assms(4) by (auto simp: no_overlap_def array_of_def Count_def)
  have "CopyArray dbg T0 (Apart d ys) (int k) (array_of p g ev xs r)
      = iterate (count_up 0 (int k)) (\<lambda>j s. bind_err (list_read ys j) (\<lambda>v. Assign j v s))
          (array_of p g (events_after ev (length xs + r) k) (replicate k T0)
             (spare_after g 0 (length xs + r) k))"
    unfolding CopyArray_def SetSize_def SetCount_canon [OF assms(1,2)] bind_err_simps body
    using nil by simp
  then show ?thesis
    using copy_loop_canon [OF rd assms(3)] by simp
qed

lemma Element_canon: "j < length ys \<Longrightarrow> Element (array_of p g ev ys r) (int j) = Inr (ys ! j)"
  by (simp add: array_of_def Element_mk nth_append)

lemma operator_assign_canon:
  assumes "0 \<le> g" "p \<noteq> FixedCapacity \<or> length ys \<le> length xs + r"
  shows "operator_assign dbg T0 (Other (array_of p' g' ev' ys r')) (array_of p g ev xs r) =
           Inr (array_of p g (events_after ev (length xs + r) (length ys)) ys
                  (spare_after g 0 (length xs + r) (length ys)))"
proof -
  have rd: "\<forall>j<length ys. Element (array_of p' g' ev' ys r') (int j) = Inr (ys ! j)"
    by (simp add: Element_canon)
  show ?thesis
    unfolding operator_assign_def deref_def array_ref.case Let_def array_of_sel SetSize_def
      SetCount_canon [OF assms(1,2)] bind_err_simps
    using copy_loop_canon [OF rd le_refl] by simp
qed

lemma AddVectorToTail_canon:
  assumes "0 \<le> g" "p \<noteq> FixedCapacity \<or> length ys \<le> r"
  shows "AddVectorToTail dbg T0 (Other (array_of p' g' ev' ys r')) (array_of p g ev xs r) =
           Inr (int (length xs), array_of p g (events_after ev r (length ys)) (xs @ ys)
                  (spare_after g (length xs) r (length ys)))"
proof -
  let ?k = "length ys" and ?n = "length xs"
  let ?ev = "events_after ev r ?k" and ?sp = "spare_after g ?n r ?k"
  let ?L = "map Some xs @ map Some (replicate ?k T0) @ replicate ?sp None"
  have rd: "\<forall>j<?k. Element (array_of p' g' ev' ys r') (int j) = Inr (ys ! j)"
    by (simp add: Element_canon)
  have add: "AddMultipleToTail dbg T0 (int ?k) Null (array_of p g ev xs r) =
           Inr (int ?n, array_of p g ?ev (xs @ replicate ?k T0) ?sp)"
    using AddMultipleToTail_canon [OF assms(1,2), where src = Null and dbg = dbg and ?T0.0 = T0
        and ev = ev and xs = xs] by (simp add: new_elements_def)
  have mid: "array_of p g ?ev (xs @ replicate ?k T0) ?sp = mk_array p g ?ev ?L (int (?n + ?k))"
    by (simp add: array_of_def)
  have inl: "?n + ?k \<le> length ?L" by simp
  have live: "\<forall>j. ?n \<le> j \<and> j < ?n + ?k \<longrightarrow> ?L ! j \<noteq> None"
    by (auto simp: nth_append)
  have lens: "length (map Some xs) = ?n" "length (map Some (replicate ?k T0)) = ?k" by simp_all
  have loop: "iterate (count_up 0 (int ?k))
            (\<lambda>j s. bind_err (Element (array_of p' g' ev' ys r') j) (\<lambda>v. Assign (int ?n + j) v s))
            (mk_array p g ?ev ?L (int (?n + ?k)))
        = Inr (mk_array p g ?ev (map Some xs @ map Some ys @ replicate ?sp None) (int (?n + ?k)))"
    unfolding Assign_loop [OF inl live rd] overwrite_middle [OF lens] map_nth_take [OF le_refl]
    by simp
  have fin: "mk_array p g ?ev (map Some xs @ map Some ys @ replicate ?sp None) (int (?n + ?k))
        = array_of p g ?ev (xs @ ys) ?sp"
    by (simp add: array_of_def)
  show ?thesis
    unfolding AddVectorToTail_def deref_def array_ref.case Let_def array_of_sel add
      bind_err_simps snd_conv mid loop fin
    by simp
qed

subsection \<open>Capacity, compaction and the remaining operations\<close>

lemma InsertBefore_default_eq:
  "InsertBefore_default dbg T0 elem a = InsertBefore dbg elem (Outside (- 1) T0) a"
  by (simp add: InsertBefore_default_def InsertBefore_def Construct_eq not_in_list_def
      ref_read_def)

lemma EnsureCapacity_canon:
  "EnsureCapacity n (array_of p g ev xs r) =
     (if n \<le> int (length xs + r) then Inr (array_of p g ev xs r)
      else if p = FixedCapacity then Inl CapacityExceeded
      else Inr (array_of p g ev xs (nat n - length xs)))"
proof -
  have "replicate r None @ replicate (nat (n - (int (length xs) + int r))) None
        = replicate (nat n - length xs) (None :: 'a option)"
    if "\<not> n \<le> int (length xs) + int r"
  proof -
    have "r + nat (n - (int (length xs) + int r)) = nat n - length xs" using that by linarith
    then show ?thesis by (simp flip: replicate_add)
  qed
  then show ?thesis
    by (auto simp: EnsureCapacity_def Mem_EnsureCapacity_def Mem_NumAllocated_def array_of_def
          mk_array_def)
qed

lemma EnsureCount_canon:
  assumes "0 \<le> g" "p \<noteq> FixedCapacity \<or> nat n \<le> length xs + r"
  shows "EnsureCount dbg T0 n (array_of p g ev xs r) =
     (if int (length xs) < n
      then Inr (array_of p g (events_after ev r (nat n - length xs))
                  (xs @ replicate (nat n - length xs) T0)
                  (spare_after g (length xs) r (nat n - length xs)))
      else Inr (array_of p g ev xs r))"
proof (cases "int (length xs) < n")
  case True
  have k: "n - int (length xs) = int (nat n - length xs)" using True by linarith
  have room: "p \<noteq> FixedCapacity \<or> nat n - length xs \<le> r" using assms(2) by linarith
  show ?thesis
    using True AddMultipleToTail_canon [OF assms(1) room, where src = Null and dbg = dbg
        and ?T0.0 = T0 and ev = ev and xs = xs]
    unfolding EnsureCount_def array_of_sel k by (simp add: new_elements_def)
next
  case False
  then show ?thesis by (simp add: EnsureCount_def)
qed

lemma Compact_canon:
  "Compact (array_of p g ev xs r) = array_of p g ev xs (if p = FixedCapacity then r else 0)"
  by (simp add: Compact_def Mem_Purge_keep_def array_of_def mk_array_def)

lemma SetGrowSize_canon: "SetGrowSize n (array_of p g ev xs r) = array_of p n ev xs r"
  by (simp add: SetGrowSize_def Mem_SetGrowSize_def array_of_def mk_array_def)

lemma Swap_canon: "fst (Swap a (array_of p g ev xs r)) = array_of p g ev xs r"
  by (simp add: Swap_def array_of_def mk_array_def)

lemma iterate_id:
  "(\<forall>i \<in> set js. f i s = Inr s) \<Longrightarrow> iterate js f s = Inr s"
  by (induction js) auto

lemma set_count_up: "set (count_up 0 (int n)) = int ` {0..<n}"
  by (auto simp: count_up_def)

lemma PurgeAndDeleteElements_canon:
  "PurgeAndDeleteElements (array_of p g ev xs r) =
     Inr (array_of p g ev [] (if p = FixedCapacity then length xs + r else 0))"
proof -
  have "iterate (count_up 0 (int (length xs)))
          (\<lambda>i s. bind_err (Element s i) (\<lambda>v. Inr s)) (array_of p g ev xs r)
        = Inr (array_of p g ev xs r)"
    by (rule iterate_id) (auto simp: set_count_up Element_canon)
  then show ?thesis
    by (simp add: PurgeAndDeleteElements_def Purge_canon)
qed

subsection \<open>Sorting\<close>

lemma Element_array_of:
  "Element (array_of p g ev xs r) j =
     (if 0 \<le> j \<and> j < int (length xs) then Inr (xs ! nat j) else Inl UndefinedBehaviour)"
  by (auto simp: array_of_def Element_mk nth_append split: option.splits)

lemma Assign_array_of:
  "Assign j v (array_of p g ev xs r) =
     (if 0 \<le> j \<and> j < int (length xs) then Inr (array_of p g ev (xs[nat j := v]) r)
      else Inl UndefinedBehaviour)"
  by (auto simp: array_of_def Assign_mk nth_append list_update_append map_update)

lemma Sort_step_array_of:
  "Sort_step cmp j (array_of p g ev xs r) =
     (if 1 \<le> j \<and> j < int (length xs)
      then Inr (array_of p g ev
                  (if cmp (xs ! nat (j - 1)) (xs ! nat j) < 0
                   then xs[nat (j - 1) := xs ! nat j, nat j := xs ! nat (j - 1)] else xs) r)
      else Inl UndefinedBehaviour)"
  by (auto simp: Sort_step_def swap_elements_def Element_array_of Assign_array_of)

lemma iterate_invariant:
  assumes "\<And>i s s'. i \<in> set js \<Longrightarrow> P s \<Longrightarrow> f i s = Inr s' \<Longrightarrow> P s'"
    and "P s" and "iterate js f s = Inr s'"
  shows "P s'"
  using assms
proof (induction js arbitrary: s)
  case Nil
  then show ?case by simp
next
  case (Cons j js)
  from Cons.prems(3) obtain s1 where s1: "f j s = Inr s1" "iterate js f s1 = Inr s'"
    by (auto split: sum.splits)
  have "P s1" using Cons.prems(1) [of j s s1] Cons.prems(2) s1(1) by simp
  then show ?case
    using Cons.IH [of s1] Cons.prems(1) s1(2) by auto
qed

lemma length_insert_by [simp]: "length (insert_by cmp x ys) = Suc (length ys)"
  by (induction ys) auto

lemma length_qsort [simp]: "length (qsort cmp xs) = length xs"
  by (induction xs) (auto simp: qsort_def)

lemma those_map_Some [simp]: "those (map Some xs) = Some xs"
  by (induction xs) auto

lemma qsort_Base_array_of:
  "qsort_Base cmp (array_of p g ev xs r) = Inr (array_of p g ev (qsort cmp xs) r)"
  by (simp add: qsort_Base_def array_of_def mk_array_def NumAllocated_def Mem_NumAllocated_def
        Count_def)

lemma Sort_array_of:
  assumes "Sort dbg cmp (array_of p g ev xs r) = Inr a'"
  shows "\<exists>zs. a' = array_of p g ev zs r \<and> length zs = length xs"
proof -
  let ?P = "\<lambda>s. \<exists>zs. s = array_of p g ev zs r \<and> length zs = length xs"
  have step: "?P s'" if "?P s" "Sort_step cmp j s = Inr s'" for j s s'
  proof -
    from that(1) obtain zs where zs: "s = array_of p g ev zs r" "length zs = length xs" by blast
    let ?zs' = "if cmp (zs ! nat (j - 1)) (zs ! nat j) < 0
                then zs[nat (j - 1) := zs ! nat j, nat j := zs ! nat (j - 1)] else zs"
    have "s' = array_of p g ev ?zs' r"
      using that(2) unfolding zs(1) Sort_step_array_of by (simp split: if_splits)
    moreover have "length ?zs' = length xs" using zs(2) by simp
    ultimately show ?thesis by blast
  qed
  have inner: "?P s'" if "?P s" "iterate js (Sort_step cmp) s = Inr s'" for js s s'
    using step that by (rule iterate_invariant [where P = ?P and f = "Sort_step cmp"]) 
  have outer: "?P s'"
    if "?P s" "iterate is (\<lambda>i. iterate (count_up 1 (i + 1)) (Sort_step cmp)) s = Inr s'"
    for "is" s s'
    using inner that
    by (rule iterate_invariant
          [where P = ?P and f = "\<lambda>i. iterate (count_up 1 (i + 1)) (Sort_step cmp)"])
  have P0: "?P (array_of p g ev xs r)" by auto
  show ?thesis
  proof (cases "Count (array_of p g ev xs r) \<le> 1")
    case True
    then show ?thesis using assms by (auto simp: Sort_def)
  next
    case False
    show ?thesis
    proof (cases "Mem_has_Base (m_Memory (array_of p g ev xs r))")
      case True
      then show ?thesis
        using assms False by (auto simp: Sort_def qsort_Base_array_of)
    next
      case nb: False
      then have "iterate (count_down 0 (m_Size (array_of p g ev xs r)))
             (\<lambda>i. iterate (count_up 1 (i + 1)) (Sort_step cmp)) (array_of p g ev xs r) = Inr a'"
        using assms False by (auto simp: Sort_def split: if_splits)
      then show ?thesis using outer [OF P0] by blast
    qed
  qed
qed

subsection \<open>Preservation of the invariant\<close>

lemma int_position_obtain:
  assumes "0 \<le> i" and "i \<le> int n"
  obtains k where "i = int k" and "k \<le> n"
  using assms that [of "nat i"] by simp

lemma InsertBefore_no_room:
  "InsertBefore dbg i src (array_of FixedCapacity g ev xs 0) \<noteq> Inr res"
  by (simp add: InsertBefore_def array_of_def GrowVector_mk)

lemma InsertMultipleBefore_no_room:
  "r < k \<Longrightarrow> InsertMultipleBefore dbg T0 i (int k) src (array_of FixedCapacity g ev xs r) \<noteq> Inr res"
  by (simp add: InsertMultipleBefore_def array_of_def GrowVector_mk)

lemma InsertBefore_inv:
  assumes "array_inv a" "0 \<le> i" "i \<le> Count a" "InsertBefore dbg i src a = Inr res"
  shows "array_inv (snd res)"
proof -
  obtain p g ev xs r where a: "a = array_of p g ev xs r" and g: "0 \<le> g"
    using assms(1) by (rule array_inv_obtain)
  obtain k where k: "i = int k" "k \<le> length xs"
    using assms(2,3) unfolding a array_of_sel by (rule int_position_obtain)
  obtain v where v: "InsertBefore dbg i (Outside (- 1) v) a = Inr res"
    using InsertBefore_any_src [OF assms(4)] by blast
  have d: "(- 1 :: int) < 0 \<or> int (length xs) \<le> - 1" by simp
  show ?thesis
  proof (cases "p \<noteq> FixedCapacity \<or> 0 < r")
    case True
    show ?thesis
      using v g unfolding a k(1) InsertBefore_canon [OF g k(2) True d] by auto
  next
    case False
    then show ?thesis
      using assms(4) InsertBefore_no_room [of dbg i src g ev xs res] unfolding a by simp
  qed
qed

text \<open>Assignments to elements change neither the element count, nor the capacity, nor the
  count of growth events, and they keep the invariant.\<close>

lemma Assign_frame:
  assumes "Assign j v a = Inr a'"
  shows "Count a' = Count a \<and> NumAllocated a' = NumAllocated a
         \<and> grow_events (m_Memory a') = grow_events (m_Memory a)"
  using assms
  by (auto simp: Assign_def Mem_set_slot_def Count_def NumAllocated_def Mem_NumAllocated_def
      split: option.splits)

lemma Assign_inv:
  assumes "array_inv a" "Assign j v a = Inr a'"
  shows "array_inv a' \<and> Count a' = Count a"
proof -
  obtain p g ev xs r where a: "a = array_of p g ev xs r" and g: "0 \<le> g"
    using assms(1) by (rule array_inv_obtain)
  show ?thesis
    using assms(2) g unfolding a Assign_array_of by (auto split: if_splits)
qed

lemma assign_loop_frame:
  assumes "iterate js (\<lambda>j s. bind_err (rd j s) (\<lambda>v. Assign (f j) v s)) a = Inr a'"
  shows "(array_inv a \<longrightarrow> array_inv a') \<and> Count a' = Count a
         \<and> NumAllocated a' = NumAllocated a
         \<and> grow_events (m_Memory a') = grow_events (m_Memory a)"
proof -
  let ?P = "\<lambda>s. (array_inv a \<longrightarrow> array_inv s) \<and> Count s = Count a
         \<and> NumAllocated s = NumAllocated a
         \<and> grow_events (m_Memory s) = grow_events (m_Memory a)"
  have step: "?P s'"
    if "?P s" "bind_err (rd j s) (\<lambda>v. Assign (f j) v s) = Inr s'" for j s s'
  proof (cases "rd j s")
    case (Inl e)
    then show ?thesis using that(2) by simp
  next
    case (Inr v)
    then have as: "Assign (f j) v s = Inr s'" using that(2) by simp
    show ?thesis
      using that(1) Assign_frame [OF as] Assign_inv [of s "f j" v s'] as by simp
  qed
  have init: "?P a" by simp
  show ?thesis
    using step init assms
    by (rule iterate_invariant
          [where P = ?P and f = "\<lambda>j s. bind_err (rd j s) (\<lambda>v. Assign (f j) v s)"])
qed

text \<open>An insertion of several elements that returns is the insertion of as many
  default-constructed elements followed by assignments to elements.\<close>

lemma InsertMultipleBefore_any_src:
  assumes "InsertMultipleBefore dbg T0 i n src a = Inr res"
  shows "\<exists>res0. InsertMultipleBefore dbg T0 i n Null a = Inr res0
           \<and> (array_inv (snd res0) \<longrightarrow> array_inv (snd res))
           \<and> Count (snd res) = Count (snd res0)
           \<and> NumAllocated (snd res) = NumAllocated (snd res0)
           \<and> grow_events (m_Memory (snd res)) = grow_events (m_Memory (snd res0))"
proof (cases "n = 0")
  case True
  then show ?thesis using assms by (simp add: InsertMultipleBefore_def)
next
  case False
  have pre: "\<not> (dbg \<and> \<not> ((i = Count a) \<or> IsValidIndex a i))"
    using assms False by (auto simp: InsertMultipleBefore_def split: if_splits)
  obtain a1 where a1: "GrowVector n a = Inr a1"
    using assms pre False
    by (cases "GrowVector n a") (auto simp: InsertMultipleBefore_def split: if_splits)
  obtain a2 where a2: "ShiftElementsRight dbg i n a1 = Inr a2"
    using assms pre False a1
    by (cases "ShiftElementsRight dbg i n a1")
       (auto simp: InsertMultipleBefore_def split: if_splits)
  obtain a3 where a3: "iterate (count_up 0 n) (\<lambda>j. Construct T0 (i + j)) a2 = Inr a3"
    using assms pre False a1 a2
    by (cases "iterate (count_up 0 n) (\<lambda>j. Construct T0 (i + j)) a2")
       (auto simp: InsertMultipleBefore_def split: if_splits)
  have null: "InsertMultipleBefore dbg T0 i n Null a = Inr (i, a3)"
    using pre False a1 a2 a3 by (auto simp: InsertMultipleBefore_def)
  show ?thesis
  proof (cases "src = Null")
    case True
    then show ?thesis using assms null by simp
  next
    case src: False
    obtain a4 where a4: "iterate (count_up 0 n)
          (\<lambda>j s. bind_err (ptr_read a src j s) (\<lambda>v. Assign (i + j) v s)) a3 = Inr a4"
      and res: "res = (i, a4)"
      using assms pre False a1 a2 a3 src
      by (cases "iterate (count_up 0 n)
                   (\<lambda>j s. bind_err (ptr_read a src j s) (\<lambda>v. Assign (i + j) v s)) a3")
         (auto simp: InsertMultipleBefore_def split: if_splits)
    show ?thesis
      using null res
        assign_loop_frame [where rd = "ptr_read a src" and f = "\<lambda>j. i + j", OF a4]
      by simp
  qed
qed

lemma InsertMultipleBefore_inv:
  assumes "array_inv a" "0 \<le> i" "i \<le> Count a" "0 \<le> n" "src_holds n src"
    and "InsertMultipleBefore dbg T0 i n src a = Inr res"
  shows "array_inv (snd res)"
proof -
  obtain p g ev xs r where a: "a = array_of p g ev xs r" and g: "0 \<le> g"
    using assms(1) by (rule array_inv_obtain)
  obtain k where k: "i = int k" "k \<le> length xs"
    using assms(2,3) unfolding a array_of_sel by (rule int_position_obtain)
  obtain m where m: "n = int m" using assms(4) by (rule nonneg_int_cases)
  have src: "case (Null :: 'a array_ptr) of Null \<Rightarrow> True | Apart d ys \<Rightarrow> m \<le> length ys
             | Within c \<Rightarrow> False"
    by simp
  obtain res0 where res0: "InsertMultipleBefore dbg T0 i n Null a = Inr res0"
    and keep: "array_inv (snd res0) \<longrightarrow> array_inv (snd res)"
    using InsertMultipleBefore_any_src [OF assms(6)] by blast
  show ?thesis
  proof (cases "p \<noteq> FixedCapacity \<or> m \<le> r")
    case True
    show ?thesis
      using res0 keep g
      unfolding a k(1) m InsertMultipleBefore_canon [OF g k(2) True src] by auto
  next
    case False
    then show ?thesis
      using assms(6) InsertMultipleBefore_no_room [of r m dbg T0 i src g ev xs res]
      unfolding a m by simp
  qed
qed

lemma RemoveAll_inv:
  assumes "array_inv a"
  shows "\<exists>a1. RemoveAll a = Inr a1 \<and> array_inv a1 \<and> Count a1 = 0"
proof -
  obtain p g ev xs r where a: "a = array_of p g ev xs r" and g: "0 \<le> g"
    using assms(1) by (rule array_inv_obtain)
  show ?thesis unfolding a RemoveAll_canon using g by simp
qed

lemma assign_loop_inv:
  assumes "array_inv a"
    and "iterate js (\<lambda>j s. bind_err (rd j s) (\<lambda>v. Assign (f j) v s)) a = Inr a'"
  shows "array_inv a'"
  using assign_loop_frame [OF assms(2)] assms(1) by simp

lemma AddMultipleToTail_Inr:
  "AddMultipleToTail dbg T0 n src a = Inr res \<Longrightarrow>
   InsertMultipleBefore dbg T0 (m_Size a) n src a = Inr res"
  by (simp add: AddMultipleToTail_def split: if_splits)

lemma SetCount_inv:
  assumes "array_inv a" "0 \<le> n" "SetCount dbg T0 n a = Inr a'"
  shows "array_inv a'"
proof -
  obtain a1 where a1: "RemoveAll a = Inr a1" "array_inv a1" "Count a1 = 0"
    using RemoveAll_inv [OF assms(1)] by blast
  from assms(3) obtain res where res: "AddMultipleToTail dbg T0 n Null a1 = Inr res" "a' = snd res"
    unfolding SetCount_def a1(1) bind_err_simps by (auto simp: bind_err_def split: sum.splits)
  have "array_inv (snd res)"
    using AddMultipleToTail_Inr [OF res(1)] a1(2,3) assms(2)
    by (intro InsertMultipleBefore_inv [where a = a1 and src = Null and n = n])
       (auto simp: src_holds_def Count_def)
  then show ?thesis using res(2) by simp
qed

lemma drop_result_Inr:
  assumes "drop_result m = Inr a'"
  obtains res where "m = Inr res" and "a' = snd res"
  using assms unfolding drop_result_def by (cases m) auto

lemma CopyArray_inv:
  assumes "array_inv a" "0 \<le> n" "CopyArray dbg T0 src n a = Inr a'"
  shows "array_inv a'"
proof -
  from assms(3) obtain a1 where a1: "SetSize dbg T0 n a = Inr a1"
    and loop: "iterate (count_up 0 n)
                 (\<lambda>i s. bind_err (ptr_read a src i s) (\<lambda>v. Assign i v s)) a1 = Inr a'"
    unfolding CopyArray_def by (cases "SetSize dbg T0 n a") (auto split: if_splits)
  have "array_inv a1" using SetCount_inv [OF assms(1,2)] a1 unfolding SetSize_def by blast
  then show ?thesis
    using loop by (rule assign_loop_inv [where rd = "ptr_read a src" and f = "\<lambda>i. i"])
qed

lemma operator_assign_inv:
  assumes "array_inv a" "array_inv b" "operator_assign dbg T0 (Other b) a = Inr a'"
  shows "array_inv a'"
proof -
  have n: "0 \<le> Count b" using assms(2) by (simp add: array_inv_def Count_def)
  from assms(3) obtain a1 where a1: "SetSize dbg T0 (Count b) a = Inr a1"
    and loop: "iterate (count_up 0 (Count b))
                 (\<lambda>i s. bind_err (Element b i) (\<lambda>v. Assign i v s)) a1 = Inr a'"
    unfolding operator_assign_def deref_def Let_def array_ref.case
    by (cases "SetSize dbg T0 (Count b) a") auto
  have "array_inv a1" using SetCount_inv [OF assms(1) n] a1 unfolding SetSize_def by blast
  then show ?thesis
    using loop by (rule assign_loop_inv [where rd = "\<lambda>i s. Element b i" and f = "\<lambda>i. i"])
qed

lemma AddVectorToTail_inv:
  assumes "array_inv a" "array_inv b" "AddVectorToTail dbg T0 (Other b) a = Inr res"
  shows "array_inv (snd res)"
proof -
  have n: "0 \<le> Count b" using assms(2) by (simp add: array_inv_def Count_def)
  from assms(3) obtain r1 where r1: "AddMultipleToTail dbg T0 (Count b) Null a = Inr r1"
    and loop: "iterate (count_up 0 (Count b))
                 (\<lambda>i s. bind_err (Element b i) (\<lambda>v. Assign (Count a + i) v s)) (snd r1)
               = Inr (snd res)"
    unfolding AddVectorToTail_def deref_def Let_def array_ref.case
    by (cases "AddMultipleToTail dbg T0 (Count b) Null a")
       (auto simp: bind_err_def split: sum.splits if_splits)
  have "array_inv (snd r1)"
    using AddMultipleToTail_Inr [OF r1] assms(1) n
    by (intro InsertMultipleBefore_inv [where a = a and src = Null and n = "Count b"])
       (auto simp: src_holds_def Count_def array_inv_def)
  then show ?thesis
    using loop
    by (rule assign_loop_inv [where rd = "\<lambda>i s. Element b i" and f = "\<lambda>i. Count a + i"])
qed

lemma EnsureCount_inv:
  assumes "array_inv a" "EnsureCount dbg T0 n a = Inr a'"
  shows "array_inv a'"
proof (cases "Count a < n")
  case True
  from assms(2) True obtain res where res: "AddMultipleToTail dbg T0 (n - Count a) Null a = Inr res"
    "a' = snd res"
    unfolding EnsureCount_def by (auto simp: bind_err_def split: sum.splits)
  have "array_inv (snd res)"
    using AddMultipleToTail_Inr [OF res(1)] assms(1) True
    by (intro InsertMultipleBefore_inv [where a = a and src = Null and n = "n - Count a"])
       (auto simp: src_holds_def Count_def array_inv_def)
  then show ?thesis using res(2) by simp
next
  case False
  then show ?thesis using assms by (simp add: EnsureCount_def)
qed

lemma EnsureCapacity_inv:
  assumes "array_inv a" "EnsureCapacity n a = Inr a'"
  shows "array_inv a' \<and> Count a' = Count a \<and> contents a' = contents a \<and> n \<le> NumAllocated a'
         \<and> grow_events (m_Memory a') = grow_events (m_Memory a)"
proof -
  obtain p g ev xs r where a: "a = array_of p g ev xs r" and g: "0 \<le> g"
    using assms(1) by (rule array_inv_obtain)
  show ?thesis
    using assms(2) g unfolding a EnsureCapacity_canon by (auto split: if_splits)
qed

lemma removal_inv:
  assumes "array_inv a"
  shows "0 \<le> i \<Longrightarrow> i < Count a \<Longrightarrow> FastRemove dbg i a = Inr a' \<Longrightarrow> array_inv a'"
    and "0 \<le> i \<Longrightarrow> i < Count a \<Longrightarrow> Remove dbg i a = Inr a' \<Longrightarrow> array_inv a'"
    and "0 \<le> i \<Longrightarrow> 0 \<le> n \<Longrightarrow> i + n \<le> Count a \<Longrightarrow> RemoveMultiple dbg i n a = Inr a'
         \<Longrightarrow> array_inv a'"
    and "FindAndRemove dbg v a = Inr fr \<Longrightarrow> array_inv (snd fr)"
    and "Purge a = Inr a' \<Longrightarrow> array_inv a'"
    and "PurgeAndDeleteElements a = Inr a' \<Longrightarrow> array_inv a'"
    and "RemoveAll a = Inr a' \<Longrightarrow> array_inv a'"
    and "array_inv (Compact a)"
    and "Sort dbg cmp a = Inr a' \<Longrightarrow> array_inv a'"
proof -
  obtain p g ev xs r where a: "a = array_of p g ev xs r" and g: "0 \<le> g"
    using assms(1) by (rule array_inv_obtain)
  {
    assume i: "0 \<le> i" "i < Count a"
    then obtain k where k: "i = int k" "k < length xs"
      unfolding a array_of_sel by (rule int_index_obtain)
    show "FastRemove dbg i a = Inr a' \<Longrightarrow> array_inv a'"
      unfolding a k(1) FastRemove_canon [OF k(2)] using g by auto
    show "Remove dbg i a = Inr a' \<Longrightarrow> array_inv a'"
      unfolding a k(1) Remove_canon [OF k(2)] using g by auto
  }
  {
    assume i: "0 \<le> i" "0 \<le> n" "i + n \<le> Count a"
    obtain k where k: "i = int k" using i(1) by (rule nonneg_int_cases)
    obtain m where m: "n = int m" using i(2) by (rule nonneg_int_cases)
    have km: "k + m \<le> length xs" using i(3) unfolding a k m by simp
    show "RemoveMultiple dbg i n a = Inr a' \<Longrightarrow> array_inv a'"
      unfolding a k m RemoveMultiple_canon [OF km] using g by auto
  }
  show "FindAndRemove dbg v a = Inr fr \<Longrightarrow> array_inv (snd fr)"
    unfolding a FindAndRemove_canon using g by (auto split: if_splits)
  show "Purge a = Inr a' \<Longrightarrow> array_inv a'"
    unfolding a Purge_canon using g by auto
  show "PurgeAndDeleteElements a = Inr a' \<Longrightarrow> array_inv a'"
    unfolding a PurgeAndDeleteElements_canon using g by auto
  show "RemoveAll a = Inr a' \<Longrightarrow> array_inv a'"
    unfolding a RemoveAll_canon using g by auto
  show "array_inv (Compact a)"
    unfolding a Compact_canon using g by simp
  show "Sort dbg cmp a = Inr a' \<Longrightarrow> array_inv a'"
    unfolding a using Sort_array_of [of dbg cmp p g ev xs r a'] g by auto
qed

lemma insert_one_inv:
  assumes "array_inv a" "0 \<le> i" "i \<le> Count a" "drop_result (InsertBefore dbg i src a) = Inr a'"
  shows "array_inv a'"
  using assms(4) InsertBefore_inv [OF assms(1,2,3)] by (auto elim!: drop_result_Inr)

lemma insert_many_inv:
  assumes "array_inv a" "0 \<le> i" "i \<le> Count a" "0 \<le> n" "src_holds n src"
    and "drop_result (InsertMultipleBefore dbg T0 i n src a) = Inr a'"
  shows "array_inv a'"
  using assms(6) InsertMultipleBefore_inv [OF assms(1,2,3,4,5)] by (auto elim!: drop_result_Inr)

lemma Swap_inv: "array_inv vec \<Longrightarrow> array_inv (fst (Swap a vec))"
  by (simp add: Swap_def array_inv_def NumAllocated_def)

lemma SetGrowSize_inv: "array_inv a \<Longrightarrow> 0 \<le> n \<Longrightarrow> array_inv (SetGrowSize n a)"
  by (simp add: SetGrowSize_def Mem_SetGrowSize_def array_inv_def NumAllocated_def
        Mem_NumAllocated_def)

subsection \<open>Inserts that need no growth\<close>

lemma drop_result_simps:
  "drop_result (Inl e) = Inl e" "drop_result (Inr res) = Inr (snd res)"
  by (simp_all add: drop_result_def)

lemma ref_clear_not_in_list:
  assumes "array_inv a" "ref_clear (NumAllocated a) src"
  shows "not_in_list a src"
  using assms
  by (cases src) (auto simp: ref_clear_def not_in_list_def array_inv_def Count_def)

lemma insert_one_room:
  assumes "array_inv a" "0 \<le> i" "i \<le> Count a" "Count a + 1 \<le> NumAllocated a"
  shows "drop_result (InsertBefore dbg i src a) = Inr a' \<Longrightarrow>
           array_inv a' \<and> Count a' = Count a + 1 \<and> NumAllocated a' = NumAllocated a
           \<and> grow_events (m_Memory a') = grow_events (m_Memory a)"
    and "ref_clear (NumAllocated a) src \<Longrightarrow> \<exists>a'. drop_result (InsertBefore dbg i src a) = Inr a'"
proof -
  obtain p g ev xs r where a: "a = array_of p g ev xs r" and g: "0 \<le> g"
    using assms(1) by (rule array_inv_obtain)
  obtain k where k: "i = int k" "k \<le> length xs"
    using assms(2,3) unfolding a array_of_sel by (rule int_position_obtain)
  have r: "0 < r" using assms(4) unfolding a by simp
  then have room: "p \<noteq> FixedCapacity \<or> 0 < r" by simp
  have canon: "InsertBefore dbg i (Outside d v) a
                 = Inr (int k, array_of p g ev (take k xs @ v # drop k xs) (r - 1))"
    if "d < 0 \<or> int (length xs) \<le> d" for d v
    unfolding a k(1) InsertBefore_canon [OF g k(2) room that]
    using r by (simp add: events_after_def spare_after_def)
  {
    assume "drop_result (InsertBefore dbg i src a) = Inr a'"
    then obtain res where res: "InsertBefore dbg i src a = Inr res" "a' = snd res"
      by (rule drop_result_Inr)
    obtain v where v: "InsertBefore dbg i (Outside (- 1) v) a = Inr res"
      using InsertBefore_any_src [OF res(1)] by blast
    have "res = (int k, array_of p g ev (take k xs @ v # drop k xs) (r - 1))"
      using v canon [of "- 1" v] by simp
    then show "array_inv a' \<and> Count a' = Count a + 1 \<and> NumAllocated a' = NumAllocated a
           \<and> grow_events (m_Memory a') = grow_events (m_Memory a)"
      using res(2) g r k(2) unfolding a by simp
  }
  {
    assume "ref_clear (NumAllocated a) src"
    then obtain d v where src: "src = Outside d v" and d: "d < 0 \<or> int (length xs) \<le> d"
      unfolding a by (cases src) (auto simp: ref_clear_def)
    show "\<exists>a'. drop_result (InsertBefore dbg i src a) = Inr a'"
      unfolding src canon [OF d] by (simp add: drop_result_simps)
  }
qed

lemma insert_many_room:
  assumes "array_inv a" "0 \<le> i" "i \<le> Count a" "0 \<le> n" "Count a + n \<le> NumAllocated a"
  shows "drop_result (InsertMultipleBefore dbg T0 i n src a) = Inr a' \<Longrightarrow>
           array_inv a' \<and> Count a' = Count a + n \<and> NumAllocated a' = NumAllocated a
           \<and> grow_events (m_Memory a') = grow_events (m_Memory a)"
    and "src_holds n src \<Longrightarrow> (case src of Within c \<Rightarrow> False | _ \<Rightarrow> True) \<Longrightarrow>
           \<exists>a'. drop_result (InsertMultipleBefore dbg T0 i n src a) = Inr a'"
proof -
  obtain p g ev xs r where a: "a = array_of p g ev xs r" and g: "0 \<le> g"
    using assms(1) by (rule array_inv_obtain)
  obtain k where k: "i = int k" "k \<le> length xs"
    using assms(2,3) unfolding a array_of_sel by (rule int_position_obtain)
  obtain m where m: "n = int m" using assms(4) by (rule nonneg_int_cases)
  have r: "m \<le> r" using assms(5) unfolding a m by simp
  then have room: "p \<noteq> FixedCapacity \<or> m \<le> r" by simp
  have canon: "InsertMultipleBefore dbg T0 i n s a
                 = Inr (int k, array_of p g ev (take k xs @ new_elements T0 m s @ drop k xs) (r - m))"
    if "case s of Null \<Rightarrow> True | Apart d ys \<Rightarrow> m \<le> length ys | Within c \<Rightarrow> False" for s
    unfolding a k(1) m InsertMultipleBefore_canon [OF g k(2) room that]
    using r by (simp add: events_after_def spare_after_def)
  have len: "length (new_elements T0 m s) = m"
    if "case s of Null \<Rightarrow> True | Apart d ys \<Rightarrow> m \<le> length ys | Within c \<Rightarrow> False" for s
    using that by (cases s) (auto simp: new_elements_def)
  {
    assume "drop_result (InsertMultipleBefore dbg T0 i n src a) = Inr a'"
    then obtain res where res: "InsertMultipleBefore dbg T0 i n src a = Inr res" "a' = snd res"
      by (rule drop_result_Inr)
    obtain res0 where res0: "InsertMultipleBefore dbg T0 i n Null a = Inr res0"
      and keep: "array_inv (snd res0) \<longrightarrow> array_inv (snd res)"
        "Count (snd res) = Count (snd res0)"
        "NumAllocated (snd res) = NumAllocated (snd res0)"
        "grow_events (m_Memory (snd res)) = grow_events (m_Memory (snd res0))"
      using InsertMultipleBefore_any_src [OF res(1)] by blast
    have "res0 = (int k, array_of p g ev (take k xs @ new_elements T0 m Null @ drop k xs) (r - m))"
      using res0 canon [of Null] by simp
    then have "array_inv (snd res0) \<and> Count (snd res0) = Count a + n
           \<and> NumAllocated (snd res0) = NumAllocated a
           \<and> grow_events (m_Memory (snd res0)) = grow_events (m_Memory a)"
      using g r k(2) len [of Null] unfolding a m by simp
    then show "array_inv a' \<and> Count a' = Count a + n \<and> NumAllocated a' = NumAllocated a
           \<and> grow_events (m_Memory a') = grow_events (m_Memory a)"
      using keep res(2) by simp
  }
  {
    assume "src_holds n src" "case src of Within c \<Rightarrow> False | _ \<Rightarrow> True"
    then have "case src of Null \<Rightarrow> True | Apart d ys \<Rightarrow> m \<le> length ys | Within c \<Rightarrow> False"
      unfolding m src_holds_def by (cases src) simp_all
    then show "\<exists>a'. drop_result (InsertMultipleBefore dbg T0 i n src a) = Inr a'"
      using canon [of src] by (simp add: drop_result_simps)
  }
qed

lemma add_tail_room:
  assumes "array_inv a" "0 \<le> n" "Count a + n \<le> NumAllocated a"
  shows "drop_result (AddMultipleToTail dbg T0 n src a) = Inr a' \<Longrightarrow>
           array_inv a' \<and> Count a' = Count a + n \<and> NumAllocated a' = NumAllocated a
           \<and> grow_events (m_Memory a') = grow_events (m_Memory a)"
    and "src_holds n src \<Longrightarrow>
         (case src of Null \<Rightarrow> True | Apart d ys \<Rightarrow> d + n < 0 \<or> NumAllocated a \<le> d
          | Within c \<Rightarrow> False) \<Longrightarrow>
           \<exists>a'. drop_result (AddMultipleToTail dbg T0 n src a) = Inr a'"
proof -
  have c0: "0 \<le> Count a" "m_Size a = Count a" "Count a \<le> NumAllocated a"
    using assms(1) by (simp_all add: array_inv_def Count_def)
  note many = insert_many_room [OF assms(1) c0(1) order_refl assms(2,3),
      where dbg = dbg and ?T0.0 = T0]
  {
    assume "drop_result (AddMultipleToTail dbg T0 n src a) = Inr a'"
    then have "drop_result (InsertMultipleBefore dbg T0 (Count a) n src a) = Inr a'"
      using c0(2) by (auto simp: AddMultipleToTail_def drop_result_simps split: if_splits)
    then show "array_inv a' \<and> Count a' = Count a + n \<and> NumAllocated a' = NumAllocated a
           \<and> grow_events (m_Memory a') = grow_events (m_Memory a)"
      by (rule many(1))
  }
  {
    assume src: "src_holds n src"
      "case src of Null \<Rightarrow> True | Apart d ys \<Rightarrow> d + n < 0 \<or> NumAllocated a \<le> d
       | Within c \<Rightarrow> False"
    have nil: "not_in_list_multiple a src n"
      using src(2) c0(3) by (cases src) (auto simp: not_in_list_multiple_def)
    have "case src of Within c \<Rightarrow> False | _ \<Rightarrow> True"
      using src(2) by (cases src) simp_all
    then show "\<exists>a'. drop_result (AddMultipleToTail dbg T0 n src a) = Inr a'"
      using many(2) [OF src(1)] nil c0(2) by (simp add: AddMultipleToTail_def)
  }
qed

lemma SetCount_room:
  assumes "array_inv a" "0 \<le> n" "n \<le> NumAllocated a"
  shows "\<exists>a'. SetCount dbg T0 n a = Inr a' \<and> array_inv a' \<and> Count a' = n
           \<and> NumAllocated a' = NumAllocated a
           \<and> grow_events (m_Memory a') = grow_events (m_Memory a)"
proof -
  obtain p g ev xs r where a: "a = array_of p g ev xs r" and g: "0 \<le> g"
    using assms(1) by (rule array_inv_obtain)
  obtain m where m: "n = int m" using assms(2) by (rule nonneg_int_cases)
  have r: "m \<le> length xs + r" using assms(3) unfolding a m by simp
  then have room: "p \<noteq> FixedCapacity \<or> m \<le> length xs + r" by simp
  show ?thesis
    unfolding a m SetCount_canon [OF g room]
    using g r by (simp add: events_after_def spare_after_def)
qed

lemma CopyArray_room:
  assumes "array_inv a" "0 \<le> n" "n \<le> NumAllocated a"
  shows "CopyArray dbg T0 src n a = Inr a' \<Longrightarrow>
           array_inv a' \<and> Count a' = n \<and> NumAllocated a' = NumAllocated a
           \<and> grow_events (m_Memory a') = grow_events (m_Memory a)"
    and "src_holds n src \<Longrightarrow>
         (case src of Null \<Rightarrow> False | Apart d ys \<Rightarrow> d + n \<le> 0 \<or> NumAllocated a \<le> d
          | Within c \<Rightarrow> False) \<Longrightarrow>
           \<exists>a'. CopyArray dbg T0 src n a = Inr a'"
proof -
  {
    assume run: "CopyArray dbg T0 src n a = Inr a'"
    obtain a1 where a1: "SetCount dbg T0 n a = Inr a1" "array_inv a1" "Count a1 = n"
      "NumAllocated a1 = NumAllocated a" "grow_events (m_Memory a1) = grow_events (m_Memory a)"
      using SetCount_room [OF assms, of dbg T0] by blast
    have loop: "iterate (count_up 0 n)
                 (\<lambda>i s. bind_err (ptr_read a src i s) (\<lambda>v. Assign i v s)) a1 = Inr a'"
      using run a1(1) unfolding CopyArray_def SetSize_def by (auto split: if_splits)
    show "array_inv a' \<and> Count a' = n \<and> NumAllocated a' = NumAllocated a
           \<and> grow_events (m_Memory a') = grow_events (m_Memory a)"
      using assign_loop_frame [where rd = "ptr_read a src" and f = "\<lambda>i. i", OF loop] a1 by simp
  }
  {
    assume src: "src_holds n src"
      "case src of Null \<Rightarrow> False | Apart d ys \<Rightarrow> d + n \<le> 0 \<or> NumAllocated a \<le> d
       | Within c \<Rightarrow> False"
    obtain p g ev xs r where a: "a = array_of p g ev xs r" and g: "0 \<le> g"
      using assms(1) by (rule array_inv_obtain)
    obtain m where m: "n = int m" using assms(2) by (rule nonneg_int_cases)
    have r: "m \<le> length xs + r" using assms(3) unfolding a m by simp
    then have room: "p \<noteq> FixedCapacity \<or> m \<le> length xs + r" by simp
    obtain d ys where s: "src = Apart d ys" and d: "d + int m \<le> 0 \<or> int (length xs) \<le> d"
      and ys: "m \<le> length ys"
      using src unfolding a m src_holds_def by (cases src) auto
    show "\<exists>a'. CopyArray dbg T0 src n a = Inr a'"
      unfolding a m s CopyArray_canon [OF g room ys d] by simp
  }
qed

lemma EnsureCount_room:
  assumes "array_inv a" "max (Count a) n \<le> NumAllocated a"
  shows "\<exists>a'. EnsureCount dbg T0 n a = Inr a' \<and> array_inv a' \<and> Count a' = max (Count a) n
           \<and> NumAllocated a' = NumAllocated a
           \<and> grow_events (m_Memory a') = grow_events (m_Memory a)"
proof -
  obtain p g ev xs r where a: "a = array_of p g ev xs r" and g: "0 \<le> g"
    using assms(1) by (rule array_inv_obtain)
  have r: "nat n \<le> length xs + r" using assms(2) unfolding a by simp
  then have room: "p \<noteq> FixedCapacity \<or> nat n \<le> length xs + r" by simp
  have r': "nat n - length xs \<le> r" using r by simp
  show ?thesis
    unfolding a EnsureCount_canon [OF g room]
    using g r' by (auto simp: events_after_def spare_after_def)
qed

lemma AddVectorToTail_room:
  assumes "array_inv a" "array_inv b" "Count a + Count b \<le> NumAllocated a"
  shows "\<exists>a'. drop_result (AddVectorToTail dbg T0 (Other b) a) = Inr a' \<and> array_inv a'
           \<and> Count a' = Count a + Count b \<and> NumAllocated a' = NumAllocated a
           \<and> grow_events (m_Memory a') = grow_events (m_Memory a)"
proof -
  obtain p g ev xs r where a: "a = array_of p g ev xs r" and g: "0 \<le> g"
    using assms(1) by (rule array_inv_obtain)
  obtain p' g' ev' ys r' where b: "b = array_of p' g' ev' ys r'"
    using assms(2) by (rule array_inv_obtain)
  have r: "length ys \<le> r" using assms(3) unfolding a b by simp
  then have room: "p \<noteq> FixedCapacity \<or> length ys \<le> r" by simp
  show ?thesis
    unfolding a b AddVectorToTail_canon [OF g room] drop_result_simps
    using g r by (simp add: events_after_def spare_after_def)
qed

lemma operator_assign_room:
  assumes "array_inv a" "array_inv b" "Count b \<le> NumAllocated a"
  shows "\<exists>a'. operator_assign dbg T0 (Other b) a = Inr a' \<and> array_inv a'
           \<and> Count a' = Count b \<and> NumAllocated a' = NumAllocated a
           \<and> grow_events (m_Memory a') = grow_events (m_Memory a)"
proof -
  obtain p g ev xs r where a: "a = array_of p g ev xs r" and g: "0 \<le> g"
    using assms(1) by (rule array_inv_obtain)
  obtain p' g' ev' ys r' where b: "b = array_of p' g' ev' ys r'"
    using assms(2) by (rule array_inv_obtain)
  have r: "length ys \<le> length xs + r" using assms(3) unfolding a b by simp
  then have room: "p \<noteq> FixedCapacity \<or> length ys \<le> length xs + r" by simp
  show ?thesis
    unfolding a b operator_assign_canon [OF g room]
    using g r by (simp add: events_after_def spare_after_def)
qed

text \<open>One operation that adds elements, on an array with room for them: when it returns,
  the capacity and the count of growth events are as before.\<close>

lemma insert_step_no_growth:
  assumes "array_inv a" "count_after x (Count a) = Some c'" "within_contract x (Count a)"
    and "c' \<le> NumAllocated a" "perform dbg T0 x a = Inr a'"
  shows "array_inv a' \<and> Count a' = c' \<and> NumAllocated a' = NumAllocated a
           \<and> grow_events (m_Memory a') = grow_events (m_Memory a)"
proof -
  have c0: "0 \<le> Count a" "m_Size a = Count a"
    using assms(1) by (simp_all add: array_inv_def Count_def)
  note one = insert_one_room(1) [OF assms(1), where dbg = dbg and a' = a']
  note many = insert_many_room(1) [OF assms(1), where dbg = dbg and ?T0.0 = T0 and a' = a']
  show ?thesis
  proof (cases x)
    case (Op_InsertBefore_default i)
    then show ?thesis using assms(2-5) one [of i "Outside (- 1) T0"]
      by (simp add: InsertBefore_default_eq)
  next
    case (Op_InsertBefore i src)
    then show ?thesis using assms(2-5) one [of i src] by simp
  next
    case Op_AddToHead_default
    then show ?thesis using assms(2-5) c0 one [of 0 "Outside (- 1) T0"]
      by (simp add: AddToHead_default_def InsertBefore_default_eq)
  next
    case (Op_AddToHead src)
    then show ?thesis using assms(2-5) c0 one [of 0 src]
      by (simp add: AddToHead_def drop_result_simps split: if_splits)
  next
    case Op_AddToTail_default
    then show ?thesis using assms(2-5) c0 one [of "Count a" "Outside (- 1) T0"]
      by (simp add: AddToTail_default_def InsertBefore_default_eq)
  next
    case (Op_AddToTail src)
    then show ?thesis using assms(2-5) c0 one [of "Count a" src]
      by (simp add: AddToTail_def drop_result_simps split: if_splits)
  next
    case (Op_InsertAfter_default i)
    then show ?thesis using assms(2-5) one [of "i + 1" "Outside (- 1) T0"]
      by (simp add: InsertAfter_default_def InsertBefore_default_eq)
  next
    case (Op_InsertAfter i src)
    then show ?thesis using assms(2-5) one [of "i + 1" src]
      by (simp add: InsertAfter_def drop_result_simps split: if_splits)
  next
    case (Op_AddMultipleToHead n)
    then show ?thesis using assms(2-5) c0 many [of 0 n Null]
      by (simp add: AddMultipleToHead_def)
  next
    case (Op_AddMultipleToTail n src)
    then show ?thesis
      using assms(2-5) add_tail_room(1) [OF assms(1), of n dbg T0 src a'] by simp
  next
    case (Op_InsertMultipleBefore i n src)
    then show ?thesis using assms(2-5) many [of i n src] by simp
  next
    case (Op_InsertMultipleAfter i n)
    then show ?thesis using assms(2-5) many [of "i + 1" n Null]
      by (simp add: InsertMultipleAfter_def)
  next
    case (Op_SetCount n)
    then show ?thesis using assms(2-5) SetCount_room [OF assms(1), of n dbg T0] by auto
  next
    case (Op_SetSize n)
    then show ?thesis using assms(2-5) SetCount_room [OF assms(1), of n dbg T0]
      by (auto simp: SetSize_def)
  next
    case (Op_CopyArray src n)
    then show ?thesis
      using assms(2-5) CopyArray_room(1) [OF assms(1), of n dbg T0 src a'] by simp
  next
    case (Op_AddVectorToTail b)
    then show ?thesis
      using assms(2-5) AddVectorToTail_room [OF assms(1), of b dbg T0] by auto
  next
    case (Op_EnsureCount n)
    then show ?thesis
      using assms(2-5) EnsureCount_room [OF assms(1), of n dbg T0] by auto
  next
    case (Op_assign b)
    then show ?thesis
      using assms(2-5) operator_assign_room [OF assms(1), of b dbg T0] by auto
  qed (use assms(2) in simp_all)
qed

text \<open>The same operation returns when its sources lie clear of the storage.\<close>

lemma insert_step_returns:
  assumes "array_inv a" "count_after x (Count a) = Some c'" "within_contract x (Count a)"
    and "c' \<le> NumAllocated a" "sources_clear (NumAllocated a) x"
  shows "\<exists>a'. perform dbg T0 x a = Inr a'"
proof -
  have c0: "0 \<le> Count a" "m_Size a = Count a"
    using assms(1) by (simp_all add: array_inv_def Count_def)
  have clear: "ref_clear (NumAllocated a) (Outside (- 1) T0)" by (simp add: ref_clear_def)
  note nil = ref_clear_not_in_list [OF assms(1)]
  note one = insert_one_room(2) [OF assms(1), where dbg = dbg]
  note many = insert_many_room(2) [OF assms(1), where dbg = dbg and ?T0.0 = T0]
  have null: "src_holds n (Null :: 'a array_ptr)" for n by (simp add: src_holds_def)
  show ?thesis
  proof (cases x)
    case (Op_InsertBefore_default i)
    then show ?thesis using assms(2-5) one [of i "Outside (- 1) T0"] clear
      by (simp add: InsertBefore_default_eq)
  next
    case (Op_InsertBefore i src)
    then show ?thesis using assms(2-5) one [of i src] by simp
  next
    case Op_AddToHead_default
    then show ?thesis using assms(2-5) c0 one [of 0 "Outside (- 1) T0"] clear
      by (simp add: AddToHead_default_def InsertBefore_default_eq)
  next
    case (Op_AddToHead src)
    then show ?thesis using assms(2-5) c0 one [of 0 src] nil [of src]
      by (simp add: AddToHead_def)
  next
    case Op_AddToTail_default
    then show ?thesis using assms(2-5) c0 one [of "Count a" "Outside (- 1) T0"] clear
      by (simp add: AddToTail_default_def InsertBefore_default_eq)
  next
    case (Op_AddToTail src)
    then show ?thesis using assms(2-5) c0 one [of "Count a" src] nil [of src]
      by (simp add: AddToTail_def)
  next
    case (Op_InsertAfter_default i)
    then show ?thesis using assms(2-5) one [of "i + 1" "Outside (- 1) T0"] clear
      by (simp add: InsertAfter_default_def InsertBefore_default_eq)
  next
    case (Op_InsertAfter i src)
    then show ?thesis using assms(2-5) one [of "i + 1" src] nil [of src]
      by (simp add: InsertAfter_def)
  next
    case (Op_AddMultipleToHead n)
    then show ?thesis using assms(2-5) c0 many [of 0 n Null] null
      by (simp add: AddMultipleToHead_def)
  next
    case (Op_AddMultipleToTail n src)
    then show ?thesis
      using assms(2-5) add_tail_room(2) [OF assms(1), of n src dbg T0] by simp
  next
    case (Op_InsertMultipleBefore i n src)
    then show ?thesis using assms(2-5) many [of i n src] by (cases src) simp_all
  next
    case (Op_InsertMultipleAfter i n)
    then show ?thesis using assms(2-5) many [of "i + 1" n Null] null
      by (simp add: InsertMultipleAfter_def)
  next
    case (Op_SetCount n)
    then show ?thesis using assms(2-5) SetCount_room [OF assms(1), of n dbg T0] by auto
  next
    case (Op_SetSize n)
    then show ?thesis using assms(2-5) SetCount_room [OF assms(1), of n dbg T0]
      by (auto simp: SetSize_def)
  next
    case (Op_CopyArray src n)
    then show ?thesis
      using assms(2-5) CopyArray_room(2) [OF assms(1), of n src dbg T0]
      by (cases src) simp_all
  next
    case (Op_AddVectorToTail b)
    then show ?thesis
      using assms(2-5) AddVectorToTail_room [OF assms(1), of b dbg T0] by auto
  next
    case (Op_EnsureCount n)
    then show ?thesis
      using assms(2-5) EnsureCount_room [OF assms(1), of n dbg T0] by auto
  next
    case (Op_assign b)
    then show ?thesis
      using assms(2-5) operator_assign_room [OF assms(1), of b dbg T0] by auto
  qed (use assms(2) in simp_all)
qed

lemma inserts_no_growth:
  assumes "array_inv a" "inserts_within n ops (Count a)" "n \<le> NumAllocated a"
    and "perform_all dbg T0 ops a = Inr a2"
  shows "array_inv a2 \<and> NumAllocated a2 = NumAllocated a
           \<and> grow_events (m_Memory a2) = grow_events (m_Memory a)"
  using assms
proof (induction ops arbitrary: a)
  case Nil
  then show ?case by simp
next
  case (Cons x ops)
  from Cons.prems(2) obtain c' where k: "count_after x (Count a) = Some c'"
    "within_contract x (Count a)" "c' \<le> n" "inserts_within n ops c'"
    by (auto split: option.splits)
  have room: "c' \<le> NumAllocated a" using k(3) Cons.prems(3) by simp
  obtain a1 where a1: "perform dbg T0 x a = Inr a1" and rest: "perform_all dbg T0 ops a1 = Inr a2"
    using Cons.prems(4) by (cases "perform dbg T0 x a") simp_all
  have st: "array_inv a1" "Count a1 = c'" "NumAllocated a1 = NumAllocated a"
    "grow_events (m_Memory a1) = grow_events (m_Memory a)"
    using insert_step_no_growth [OF Cons.prems(1) k(1,2) room a1] by simp_all
  have "array_inv a2 \<and> NumAllocated a2 = NumAllocated a1
           \<and> grow_events (m_Memory a2) = grow_events (m_Memory a1)"
    using st k(4) Cons.prems(3) rest by (intro Cons.IH) simp_all
  then show ?case using st by simp
qed

lemma inserts_return:
  assumes "array_inv a" "inserts_within n ops (Count a)" "n \<le> NumAllocated a"
    and "list_all (sources_clear (NumAllocated a)) ops"
  shows "\<exists>a2. perform_all dbg T0 ops a = Inr a2"
  using assms
proof (induction ops arbitrary: a)
  case Nil
  then show ?case by simp
next
  case (Cons x ops)
  from Cons.prems(2) obtain c' where k: "count_after x (Count a) = Some c'"
    "within_contract x (Count a)" "c' \<le> n" "inserts_within n ops c'"
    by (auto split: option.splits)
  have room: "c' \<le> NumAllocated a" using k(3) Cons.prems(3) by simp
  have clear: "sources_clear (NumAllocated a) x" "list_all (sources_clear (NumAllocated a)) ops"
    using Cons.prems(4) by simp_all
  obtain a1 where a1: "perform dbg T0 x a = Inr a1"
    using insert_step_returns [OF Cons.prems(1) k(1,2) room clear(1), of dbg T0] by blast
  have st: "array_inv a1" "Count a1 = c'" "NumAllocated a1 = NumAllocated a"
    using insert_step_no_growth [OF Cons.prems(1) k(1,2) room a1] by simp_all
  have "\<exists>a2. perform_all dbg T0 ops a1 = Inr a2"
    using st k(4) Cons.prems(3) clear(2) by (intro Cons.IH) simp_all
  then show ?case using a1 by simp
qed

lemma inserts_within_take:
  "inserts_within n ops c \<Longrightarrow> inserts_within n (take k ops) c"
proof (induction ops arbitrary: k c)
  case Nil
  then show ?case by simp
next
  case (Cons x ops)
  then show ?case by (cases k) (auto split: option.splits)
qed

section \<open>The claims\<close>

text \<open>
  Claim C1.  The claim says that the fallback of \<^verbatim>\<open>Sort\<close> for storage without a base
  address produces the comparator-defined order.  In the source the fallback first hits
  \<^verbatim>\<open>assert( 0 )\<close>, and then exchanges two neighbours when the comparator says the first
  is smaller.  On the block-segmented array \<open>[1, 2, 3]\<close> with the usual three-way
  comparator an optimised build therefore ends with \<open>[3, 2, 1]\<close>, a debug build aborts,
  while contiguous storage with the same elements and comparator ends with
  \<open>[1, 2, 3]\<close>.
\<close>

theorem Sort_fallback_reverses_order:
  "Sort False cmp_int (array_of BlockSegmented 0 0 [1, 2, 3] 0)
     = Inr (array_of BlockSegmented 0 0 [3, 2, 1] 0)
   \<and> Sort True cmp_int (array_of BlockSegmented 0 0 [1, 2, 3] 0) = Inl AssertFailed
   \<and> Sort False cmp_int (array_of Contiguous 0 0 [1, 2, 3] 0)
     = Inr (array_of Contiguous 0 0 [1, 2, 3] 0)
   \<and> Sort False cmp_int (array_of Contiguous 0 0 [3, 1, 2] 0)
     = Inr (array_of Contiguous 0 0 [1, 2, 3] 0)"
  by code_simp

text \<open>
  Claim C2.  For an array satisfying the invariant and a valid index \<open>i\<close>,
  \<^verbatim>\<open>FastRemove(i)\<close> succeeds in both build modes and the size decreases by exactly one.
  If \<open>i\<close> was the last index the remaining elements are unchanged; otherwise index
  \<open>i\<close> holds the value that was last and every other index below the new size is
  unchanged.  The invariant holds again: exactly the slots below the new size hold a live
  element, the removed one having been destructed.  The order of the remaining elements is
  not preserved in general: when the elements are distinct and \<open>i\<close> is neither the last
  nor the last but one index, the result differs from the order-preserving removal.
\<close>

theorem FastRemove_moves_last:
  assumes "array_inv a" and "IsValidIndex a i"
  shows "\<exists>a'. FastRemove dbg i a = Inr a'
            \<and> Count a' = Count a - 1
            \<and> contents a' =
                (if i = Count a - 1 then butlast (contents a)
                 else (butlast (contents a))[nat i := last (contents a)])
            \<and> array_inv a'
            \<and> (if i + 1 < Count a - 1 \<and> distinct (contents a)
                then contents a' \<noteq> take (nat i) (contents a) @ drop (Suc (nat i)) (contents a)
                else True)"
proof -
  obtain p g ev xs r where a: "a = array_of p g ev xs r" and g: "0 \<le> g"
    using assms(1) by (rule array_inv_obtain)
  have "0 \<le> i" "i < int (length xs)" using assms(2) unfolding a by (auto simp: array_of_def)
  then obtain k where k: "i = int k" "k < length xs"
    by (rule int_index_obtain)
  let ?ys = "if k = length xs - 1 then butlast xs else (butlast xs)[k := last xs]"
  have run: "FastRemove dbg i a = Inr (array_of p g ev ?ys (Suc r))"
    using FastRemove_canon [OF k(2), of dbg p g ev r] unfolding a k(1) .
  have ne: "xs \<noteq> []" using k(2) by auto
  have last_eq: "(int k = int (length xs) - 1) = (k = length xs - 1)" using k(2) by auto
  have order: "?ys \<noteq> take k xs @ drop (Suc k) xs"
    if far: "int k + 1 < int (length xs) - 1" and d: "distinct xs"
  proof
    assume eq: "?ys = take k xs @ drop (Suc k) xs"
    have lt: "Suc k < length xs - 1" using far by linarith
    have "?ys ! k = last xs" using lt by simp
    moreover have "(take k xs @ drop (Suc k) xs) ! k = xs ! Suc k"
      using lt by (simp add: nth_append)
    ultimately have "xs ! Suc k = xs ! (length xs - 1)"
      using eq ne by (simp add: last_conv_nth)
    then show False using d lt by (simp add: nth_eq_iff_index_eq)
  qed
  have len: "int (length ?ys) = int (length xs) - 1" using k(2) ne by auto
  show ?thesis
  proof (intro exI conjI)
    show "FastRemove dbg i a = Inr (array_of p g ev ?ys (Suc r))" by (rule run)
    show "Count (array_of p g ev ?ys (Suc r)) = Count a - 1"
      unfolding a array_of_sel by (rule len)
    show "contents (array_of p g ev ?ys (Suc r)) =
            (if i = Count a - 1 then butlast (contents a)
             else (butlast (contents a))[nat i := last (contents a)])"
      unfolding a k(1) array_of_sel contents_array_of last_eq by simp
    show "array_inv (array_of p g ev ?ys (Suc r))"
      unfolding array_inv_array_of by (rule g)
    show "if i + 1 < Count a - 1 \<and> distinct (contents a)
          then contents (array_of p g ev ?ys (Suc r))
                 \<noteq> take (nat i) (contents a) @ drop (Suc (nat i)) (contents a)
          else True"
      unfolding a k(1) array_of_sel contents_array_of nat_int using order by simp
  qed
qed

theorem FastRemove_scenario_3:
  "\<exists>a'. FastRemove True 0 (array_of Contiguous 0 0 [5, 9, 7, 3 :: int] 0) = Inr a'
        \<and> Count a' = 3 \<and> contents a' = [3, 9, 7] \<and> array_inv a'
        \<and> contents a' \<noteq> [9, 7, 3]"
  using FastRemove_moves_last [of "array_of Contiguous 0 0 [5, 9, 7, 3 :: int] 0" 0 True]
  by (simp add: IsValidIndex_def)

text \<open>
  Claim C3.  The claim speaks of every array and every value.  \<^verbatim>\<open>InsertBefore\<close> takes
  the value by reference, and asserts that it is not an element of the array.  When it is,
  as in \<^verbatim>\<open>InsertBefore(0, a[1])\<close> on \<open>[5, 7, 3]\<close> with capacity 4, a debug build
  aborts at the assertion and an optimised build copies what the shift has left in the
  referenced slot: the result is \<open>[5, 5, 7, 3]\<close>, although the value passed was \<open>7\<close>.
  A full array under the fixed-capacity policy cannot grow: \<^verbatim>\<open>InsertBefore(1, 9)\<close> on
  the full \<open>[5, 7, 3]\<close> is fatal in both build modes.
\<close>

theorem InsertBefore_aliased_or_full:
  "array_inv (array_of Contiguous 0 0 [5, 7, 3 :: int] 1)
   \<and> Element (array_of Contiguous 0 0 [5, 7, 3 :: int] 1) 1 = Inr 7
   \<and> InsertBefore True 0 (Inside 1) (array_of Contiguous 0 0 [5, 7, 3 :: int] 1)
       = Inl AssertFailed
   \<and> InsertBefore False 0 (Inside 1) (array_of Contiguous 0 0 [5, 7, 3 :: int] 1)
       = Inr (0, array_of Contiguous 0 0 [5, 5, 7, 3] 0)
   \<and> array_inv (array_of FixedCapacity 0 0 [5, 7, 3 :: int] 0)
   \<and> InsertBefore True 1 (Outside (- 1) 9) (array_of FixedCapacity 0 0 [5, 7, 3 :: int] 0)
       = Inl CapacityExceeded
   \<and> InsertBefore False 1 (Outside (- 1) 9) (array_of FixedCapacity 0 0 [5, 7, 3 :: int] 0)
       = Inl CapacityExceeded"
  by code_simp

text \<open>
  Claim C3, amended.  For an array of size \<open>s\<close> satisfying the invariant, an index
  \<open>0 \<le> i \<le> s\<close> and a value held in an object that lies outside the array's storage
  (before it, or behind its last allocated slot), where the storage can take one more
  element (any policy but the fixed-capacity one, or an array that is not full),
  \<^verbatim>\<open>InsertBefore(i, value)\<close> returns \<open>i\<close> in both build modes; afterwards the size is
  \<open>s + 1\<close>, the elements below \<open>i\<close> are unchanged, \<open>value\<close> is at \<open>i\<close> and the
  elements formerly at \<open>i, i + 1, ...\<close> follow it, one slot to the right.  Storage grows
  exactly when the array was full (one growth event, none otherwise), and the invariant
  holds again, so the capacity covers the new size.
\<close>

theorem InsertBefore_inserts:
  assumes "array_inv a" and "0 \<le> i" and "i \<le> Count a"
    and "d < 0 \<or> NumAllocated a \<le> d"
    and "m_policy (m_Memory a) \<noteq> FixedCapacity \<or> Count a < NumAllocated a"
  shows "\<exists>a'. InsertBefore dbg i (Outside d v) a = Inr (i, a')
            \<and> Count a' = Count a + 1
            \<and> contents a' = take (nat i) (contents a) @ v # drop (nat i) (contents a)
            \<and> array_inv a'
            \<and> grow_events (m_Memory a') =
                (if Count a < NumAllocated a then grow_events (m_Memory a)
                 else Suc (grow_events (m_Memory a)))"
proof -
  define p g ev xs r where "p = m_policy (m_Memory a)" and "g = m_nGrowSize (m_Memory a)"
    and "ev = grow_events (m_Memory a)" and "xs = contents a"
    and "r = nat (NumAllocated a - m_Size a)"
  have a: "a = array_of p g ev xs r"
    unfolding p_def g_def ev_def xs_def r_def by (rule array_inv_canon [OF assms(1)])
  have g: "0 \<le> g" using assms(1) unfolding a by simp
  have i: "nat i \<le> length xs" "int (nat i) = i" using assms(2,3) unfolding a by simp_all
  have d: "d < 0 \<or> int (length xs) \<le> d" using assms(4) unfolding a by auto
  have r: "p \<noteq> FixedCapacity \<or> 0 < r" using assms(5) unfolding a by simp
  have "InsertBefore dbg (int (nat i)) (Outside d v) (array_of p g ev xs r) =
           Inr (int (nat i), array_of p g (events_after ev r 1)
                         (take (nat i) xs @ v # drop (nat i) xs)
                         (spare_after g (length xs) r 1))"
    by (rule InsertBefore_canon [OF g i(1) r d])
  then show ?thesis
    unfolding i(2) a using g i(1) by (auto simp: events_after_def)
qed

theorem InsertBefore_scenario_2:
  "\<exists>a'. InsertBefore True 1 (Outside (- 1) 9) (array_of Contiguous 0 0 [5, 7, 3 :: int] 0)
          = Inr (1, a')
        \<and> Count a' = 4 \<and> contents a' = [5, 9, 7, 3] \<and> array_inv a'
        \<and> grow_events (m_Memory a') = 1"
  using InsertBefore_inserts [where a = "array_of Contiguous 0 0 [5, 7, 3 :: int] 0"
      and i = 1 and d = "- 1" and dbg = True and v = 9]
  by simp

text \<open>
  Claim C4.  The claim says that in debug builds \<^verbatim>\<open>RemoveMultiple(i, num)\<close> checks
  \<open>0 \<le> num\<close> and \<^verbatim>\<open>Remove(i)\<close> checks the index by assertion before changing
  anything.  In a debug build \<^verbatim>\<open>RemoveMultiple(2, -1)\<close> on \<open>[1, 2, 3]\<close> with capacity 3
  passes both assertions and returns with size 4.  \<^verbatim>\<open>Remove\<close> has no assertion of its
  own: with index 3 on \<open>[1, 2, 3]\<close>, and with index 0 on an empty array, the destructor
  runs on a slot without a live element before any assertion is evaluated, whereas
  \<^verbatim>\<open>FastRemove\<close> asserts the index on entry.
\<close>

theorem debug_checks_missing:
  "RemoveMultiple True 2 (- 1) (array_of Contiguous 0 0 [1, 2, 3 :: int] 0)
     = Inr (mk_array Contiguous 0 0 [Some 1, Some 2, Some 3] 4)
   \<and> Remove True 3 (array_of Contiguous 0 0 [1, 2, 3 :: int] 1) = Inl UndefinedBehaviour
   \<and> Remove True 0 (array_of Contiguous 0 0 ([] :: int list) 1) = Inl UndefinedBehaviour
   \<and> FastRemove True 3 (array_of Contiguous 0 0 [1, 2, 3 :: int] 1) = Inl AssertFailed"
  by code_simp

text \<open>
  Claim C5.  For an array satisfying the invariant, \<^verbatim>\<open>FindAndRemove(value)\<close> succeeds
  in both build modes.  If some element equals \<open>value\<close>, the first such element is
  removed, the others keep their relative order, the size decreases by one and the call
  reports \<open>True\<close>.  If no element equals \<open>value\<close> the call reports \<open>False\<close> and the
  array is returned as it was, storage included.
\<close>

theorem FindAndRemove_first_or_unchanged:
  assumes "array_inv a"
  shows "\<exists>a'. FindAndRemove dbg v a = Inr (v \<in> set (contents a), a')
            \<and> contents a' = remove1 v (contents a)
            \<and> array_inv a'
            \<and> Count a' = (if v \<in> set (contents a) then Count a - 1 else Count a)
            \<and> (if v \<in> set (contents a) then True else a' = a)"
proof -
  obtain p g ev xs r where a: "a = array_of p g ev xs r" and g: "0 \<le> g"
    using assms(1) by (rule array_inv_obtain)
  show ?thesis
  proof (cases "v \<in> set xs")
    case True
    then have "xs \<noteq> []" by auto
    then have len: "int (length (remove1 v xs)) = int (length xs) - 1"
      using True by (simp add: length_remove1 of_nat_diff Suc_leI)
    show ?thesis
      unfolding a FindAndRemove_canon using True g len by simp
  next
    case False
    then show ?thesis
      unfolding a FindAndRemove_canon using g by (simp add: remove1_idem)
  qed
qed

theorem FindAndRemove_example:
  "(\<exists>a'. FindAndRemove True 7 (array_of Contiguous 0 0 [5, 7, 3, 7 :: int] 0) = Inr (True, a')
        \<and> contents a' = [5, 3, 7] \<and> array_inv a' \<and> Count a' = 3) \<and>
   FindAndRemove True 4 (array_of Contiguous 0 0 [5, 7, 3, 7 :: int] 0)
     = Inr (False, array_of Contiguous 0 0 [5, 7, 3, 7] 0)"
  using FindAndRemove_first_or_unchanged [of "array_of Contiguous 0 0 [5, 7, 3, 7 :: int] 0" True 7]
    FindAndRemove_first_or_unchanged [of "array_of Contiguous 0 0 [5, 7, 3, 7 :: int] 0" True 4]
  by simp

text \<open>
  Claim C6.  The claim speaks of every public operation with no condition on its
  arguments.  An optimised build checks no precondition: \<^verbatim>\<open>SetCount(-1)\<close> on an empty
  array leaves size \<open>-1\<close>.  A debug build lets \<^verbatim>\<open>RemoveMultiple(2, -1)\<close> through on
  \<open>[1, 2, 3]\<close> with capacity 3 and leaves size 4.  Both arrays satisfied the invariant
  before and violate it afterwards.
\<close>

theorem invariant_broken_outside_contract:
  "array_inv (array_of Contiguous 0 0 ([] :: int list) 0)
   \<and> SetCount False 0 (- 1) (array_of Contiguous 0 0 ([] :: int list) 0)
       = Inr (mk_array Contiguous 0 0 [] (- 1))
   \<and> \<not> array_inv (mk_array Contiguous 0 0 ([] :: int option list) (- 1))
   \<and> array_inv (array_of Contiguous 0 0 [1, 2, 3 :: int] 0)
   \<and> RemoveMultiple True 2 (- 1) (array_of Contiguous 0 0 [1, 2, 3 :: int] 0)
       = Inr (mk_array Contiguous 0 0 [Some 1, Some 2, Some 3] 4)
   \<and> \<not> array_inv (mk_array Contiguous 0 0 [Some 1, Some 2, Some (3 :: int)] 4)"
  by code_simp

text \<open>
  Claim C6, amended.  Every public mutating operation that is called within its contract
  (a valid index or insert position, a count that is not negative, a source array holding
  the elements asked for, another array that satisfies the invariant) on an array
  satisfying the invariant, and that returns, leaves the array satisfying the invariant
  again: \<open>0 \<le> size \<le> capacity\<close>, a live element in each slot below \<open>size\<close> and none
  from \<open>size\<close> on.  This holds in both build modes and for every storage policy.
\<close>

theorem public_operations_preserve_invariant:
  assumes "array_inv a" and "within_contract x (Count a)" and "perform dbg T0 x a = Inr a'"
  shows "array_inv a'"
proof -
  have c0: "0 \<le> Count a" "m_Size a = Count a"
    using assms(1) by (simp_all add: array_inv_def Count_def)
  note one = insert_one_inv [OF assms(1)]
  note many = insert_many_inv [OF assms(1)]
  show ?thesis
  proof (cases x)
    case (Op_InsertBefore_default i)
    then show ?thesis using assms(2,3) one [of i dbg "Outside (- 1) T0" a']
      by (simp add: InsertBefore_default_eq)
  next
    case (Op_InsertBefore i v)
    then show ?thesis using assms(2,3) one [of i dbg v a'] by simp
  next
    case Op_AddToHead_default
    then show ?thesis using assms(3) c0 one [of 0 dbg "Outside (- 1) T0" a']
      by (simp add: AddToHead_default_def InsertBefore_default_eq)
  next
    case (Op_AddToHead v)
    then show ?thesis using assms(3) c0 one [of 0 dbg v a']
      by (simp add: AddToHead_def drop_result_simps split: if_splits)
  next
    case Op_AddToTail_default
    then show ?thesis using assms(3) c0 one [of "Count a" dbg "Outside (- 1) T0" a']
      by (simp add: AddToTail_default_def InsertBefore_default_eq)
  next
    case (Op_AddToTail v)
    then show ?thesis using assms(3) c0 one [of "Count a" dbg v a']
      by (simp add: AddToTail_def drop_result_simps split: if_splits)
  next
    case (Op_InsertAfter_default i)
    then show ?thesis using assms(2,3) one [of "i + 1" dbg "Outside (- 1) T0" a']
      by (simp add: InsertAfter_default_def InsertBefore_default_eq)
  next
    case (Op_InsertAfter i v)
    then show ?thesis using assms(2,3) one [of "i + 1" dbg v a']
      by (simp add: InsertAfter_def drop_result_simps split: if_splits)
  next
    case (Op_AddMultipleToHead n)
    then show ?thesis using assms(2,3) c0 many [of 0 n Null dbg T0 a']
      by (simp add: AddMultipleToHead_def src_holds_def)
  next
    case (Op_AddMultipleToTail n src)
    then show ?thesis using assms(2,3) c0 many [of "Count a" n src dbg T0 a']
      by (simp add: AddMultipleToTail_def drop_result_simps split: if_splits)
  next
    case (Op_InsertMultipleBefore i n src)
    then show ?thesis using assms(2,3) many [of i n src dbg T0 a'] by simp
  next
    case (Op_InsertMultipleAfter i n)
    then show ?thesis using assms(2,3) many [of "i + 1" n Null dbg T0 a']
      by (simp add: InsertMultipleAfter_def src_holds_def)
  next
    case (Op_SetCount n)
    then show ?thesis using assms(2,3) SetCount_inv [OF assms(1), of n dbg T0 a'] by simp
  next
    case (Op_SetSize n)
    then show ?thesis using assms(2,3) SetCount_inv [OF assms(1), of n dbg T0 a']
      by (simp add: SetSize_def)
  next
    case (Op_CopyArray src n)
    then show ?thesis using assms(2,3) CopyArray_inv [OF assms(1), of n dbg T0 src a'] by simp
  next
    case (Op_Swap vec)
    then show ?thesis using assms(2,3) Swap_inv [of vec a] by auto
  next
    case (Op_AddVectorToTail b)
    then show ?thesis using assms(2,3) AddVectorToTail_inv [OF assms(1), of b dbg T0]
      by (auto elim!: drop_result_Inr)
  next
    case (Op_EnsureCapacity n)
    then show ?thesis using assms(3) EnsureCapacity_inv [OF assms(1), of n a'] by simp
  next
    case (Op_EnsureCount n)
    then show ?thesis using assms(3) EnsureCount_inv [OF assms(1), of dbg T0 n a'] by simp
  next
    case (Op_FastRemove i)
    then show ?thesis using assms(2,3) removal_inv(1) [OF assms(1), of i dbg a'] by simp
  next
    case (Op_Remove i)
    then show ?thesis using assms(2,3) removal_inv(2) [OF assms(1), of i dbg a'] by simp
  next
    case (Op_FindAndRemove v)
    then show ?thesis using assms(3) removal_inv(4) [OF assms(1), of dbg v]
      by (auto elim!: drop_result_Inr)
  next
    case (Op_RemoveMultiple i n)
    then show ?thesis using assms(2,3) removal_inv(3) [OF assms(1), of i n dbg a'] by simp
  next
    case Op_RemoveAll
    then show ?thesis using assms(3) removal_inv(7) [OF assms(1), of a'] by simp
  next
    case Op_Purge
    then show ?thesis using assms(3) removal_inv(5) [OF assms(1), of a'] by simp
  next
    case Op_PurgeAndDeleteElements
    then show ?thesis using assms(3) removal_inv(6) [OF assms(1), of a'] by simp
  next
    case Op_Compact
    then show ?thesis using assms(3) removal_inv(8) [OF assms(1)] by auto
  next
    case (Op_SetGrowSize n)
    then show ?thesis using assms(2,3) SetGrowSize_inv [OF assms(1), of n] by auto
  next
    case (Op_Sort cmp)
    then show ?thesis using assms(3) removal_inv(9) [OF assms(1), of dbg cmp a'] by simp
  next
    case (Op_assign b)
    then show ?thesis using assms(2,3) operator_assign_inv [OF assms(1), of b dbg T0 a'] by simp
  qed
qed

theorem public_operations_preserve_invariant_example:
  "array_inv (array_of Contiguous 0 0 [5, 7, 3 :: int] 0)
   \<and> within_contract (Op_RemoveMultiple 1 2 :: int operation) 3
   \<and> perform True 0 (Op_RemoveMultiple 1 2) (array_of Contiguous 0 0 [5, 7, 3 :: int] 0)
       = Inr (array_of Contiguous 0 0 [5] 2)
   \<and> array_inv (array_of Contiguous 0 0 [5 :: int] 2)"
proof -
  have run: "perform True 0 (Op_RemoveMultiple 1 2) (array_of Contiguous 0 0 [5, 7, 3 :: int] 0)
               = Inr (array_of Contiguous 0 0 [5] 2)"
    by code_simp
  have inv0: "array_inv (array_of Contiguous 0 0 [5, 7, 3 :: int] 0)" by simp
  have pre: "within_contract (Op_RemoveMultiple 1 2 :: int operation)
               (Count (array_of Contiguous 0 0 [5, 7, 3 :: int] 0))" by simp
  show ?thesis
    using public_operations_preserve_invariant [OF inv0 pre run] run by simp
qed

text \<open>
  Claim C7.  The claim speaks of every array and every \<open>n\<close>.  The fixed-capacity policy
  cannot provide more than its bound: \<^verbatim>\<open>EnsureCapacity(5)\<close> on a fixed-capacity array
  \<open>[1]\<close> with capacity 1 is fatal, so no capacity of 5 is guaranteed.
\<close>

theorem EnsureCapacity_fixed_capacity_refuses:
  "array_inv (array_of FixedCapacity 0 0 [1 :: int] 0)
   \<and> NumAllocated (array_of FixedCapacity 0 0 [1 :: int] 0) = 1
   \<and> EnsureCapacity 5 (array_of FixedCapacity 0 0 [1 :: int] 0) = Inl CapacityExceeded"
  by code_simp

text \<open>
  Claim C7, amended.  For an array satisfying the invariant, \<^verbatim>\<open>EnsureCapacity(n)\<close>
  returns whenever the storage policy can provide the capacity (any policy but the
  fixed-capacity one, or the capacity is there already); it leaves size and elements
  unchanged, invokes no \<^verbatim>\<open>Grow\<close>, and the capacity is at least \<open>n\<close>.  Take any following
  sequence of operations that add elements (the twelve insert methods, \<^verbatim>\<open>SetCount\<close>,
  \<^verbatim>\<open>SetSize\<close>, \<^verbatim>\<open>CopyArray\<close>, \<^verbatim>\<open>EnsureCount\<close>, \<^verbatim>\<open>AddVectorToTail\<close> and
  \<^verbatim>\<open>operator=\<close> from another array object), each within its contract, that never takes
  the element count past \<open>n\<close>.  In both build modes, when the sequence or an initial part
  of it returns, the storage policy's \<^verbatim>\<open>Grow\<close> has not been invoked and the capacity is
  unchanged; and the sequence does return when the sources of its operations lie clear of
  the array's storage.
\<close>

theorem EnsureCapacity_then_no_growth:
  assumes "array_inv a"
    and "m_policy (m_Memory a) \<noteq> FixedCapacity \<or> n \<le> NumAllocated a"
  shows "\<exists>a1. EnsureCapacity n a = Inr a1
            \<and> Count a1 = Count a \<and> contents a1 = contents a \<and> n \<le> NumAllocated a1
            \<and> grow_events (m_Memory a1) = grow_events (m_Memory a)
            \<and> (\<forall>ops. inserts_within n ops (Count a1) \<longrightarrow>
                 (\<forall>k a2. perform_all dbg T0 (take k ops) a1 = Inr a2 \<longrightarrow>
                     grow_events (m_Memory a2) = grow_events (m_Memory a1)
                     \<and> NumAllocated a2 = NumAllocated a1)
                 \<and> (list_all (sources_clear (NumAllocated a1)) ops \<longrightarrow>
                     (\<exists>a2. perform_all dbg T0 ops a1 = Inr a2)))"
proof -
  obtain p g ev xs r where a: "a = array_of p g ev xs r" and g: "0 \<le> g"
    using assms(1) by (rule array_inv_obtain)
  have "\<exists>a1. EnsureCapacity n a = Inr a1"
    using assms(2) unfolding a EnsureCapacity_canon by auto
  then obtain a1 where a1: "EnsureCapacity n a = Inr a1" by blast
  note props = EnsureCapacity_inv [OF assms(1) a1]
  have inv1: "array_inv a1" and cap1: "n \<le> NumAllocated a1" using props by simp_all
  have same: "grow_events (m_Memory a2) = grow_events (m_Memory a1)
            \<and> NumAllocated a2 = NumAllocated a1"
    if "inserts_within n ops (Count a1)" "perform_all dbg T0 (take k ops) a1 = Inr a2"
    for ops k a2
    using inserts_no_growth [OF inv1 inserts_within_take [OF that(1)] cap1 that(2)] by simp
  have returns: "\<exists>a2. perform_all dbg T0 ops a1 = Inr a2"
    if "inserts_within n ops (Count a1)" "list_all (sources_clear (NumAllocated a1)) ops"
    for ops
    using that by (rule inserts_return [OF inv1 _ cap1])
  show ?thesis using a1 props same returns by blast
qed

theorem EnsureCapacity_then_no_growth_example:
  "\<exists>a1. EnsureCapacity 4 (array_of Contiguous 0 0 [5 :: int] 0) = Inr a1
      \<and> Count a1 = 1 \<and> contents a1 = [5] \<and> 4 \<le> NumAllocated a1
      \<and> (\<exists>a2. perform_all True 0 [Op_AddToTail (Outside (- 1) 7),
                  Op_InsertBefore 1 (Outside (- 1) 9),
                  Op_AddMultipleToTail 1 (Apart (- 5) [3])] a1 = Inr a2
             \<and> grow_events (m_Memory a2) = grow_events (m_Memory a1)
             \<and> NumAllocated a2 = NumAllocated a1)"
proof -
  let ?ops = "[Op_AddToTail (Outside (- 1) 7), Op_InsertBefore 1 (Outside (- 1) 9),
               Op_AddMultipleToTail 1 (Apart (- 5) [3 :: int])]"
  have inv0: "array_inv (array_of Contiguous 0 0 [5 :: int] 0)" by simp
  have pol: "m_policy (m_Memory (array_of Contiguous 0 0 [5 :: int] 0)) \<noteq> FixedCapacity
             \<or> 4 \<le> NumAllocated (array_of Contiguous 0 0 [5 :: int] 0)" by simp
  have seq: "inserts_within 4 ?ops 1"
    by (simp add: src_holds_def)
  have clear: "list_all (sources_clear cap) ?ops" for cap
    by (simp add: ref_clear_def)
  obtain a1 where a1: "EnsureCapacity 4 (array_of Contiguous 0 0 [5 :: int] 0) = Inr a1"
      "Count a1 = Count (array_of Contiguous 0 0 [5 :: int] 0)"
      "contents a1 = contents (array_of Contiguous 0 0 [5 :: int] 0)"
      "4 \<le> NumAllocated a1"
      and rest: "\<forall>ops. inserts_within 4 ops (Count a1) \<longrightarrow>
                 (\<forall>k a2. perform_all True 0 (take k ops) a1 = Inr a2 \<longrightarrow>
                     grow_events (m_Memory a2) = grow_events (m_Memory a1)
                     \<and> NumAllocated a2 = NumAllocated a1)
                 \<and> (list_all (sources_clear (NumAllocated a1)) ops \<longrightarrow>
                     (\<exists>a2. perform_all True 0 ops a1 = Inr a2))"
    using EnsureCapacity_then_no_growth [OF inv0 pol, of True 0] by blast
  have c1: "Count a1 = 1" using a1(2) by simp
  have seq1: "inserts_within 4 ?ops (Count a1)" unfolding c1 by (rule seq)
  obtain a2 where a2: "perform_all True 0 ?ops a1 = Inr a2"
    using rest seq1 clear [of "NumAllocated a1"] by blast
  have whole: "perform_all True 0 (take 3 ?ops) a1 = Inr a2" using a2 by simp
  have same: "grow_events (m_Memory a2) = grow_events (m_Memory a1)"
      "NumAllocated a2 = NumAllocated a1"
    using rest seq1 whole by blast+
  show ?thesis
  proof (intro exI conjI)
    show "EnsureCapacity 4 (array_of Contiguous 0 0 [5 :: int] 0) = Inr a1" by (rule a1(1))
    show "Count a1 = 1" by (rule c1)
    show "contents a1 = [5]" using a1(3) by simp
    show "4 \<le> NumAllocated a1" by (rule a1(4))
    show "perform_all True 0 ?ops a1 = Inr a2" by (rule a2)
    show "grow_events (m_Memory a2) = grow_events (m_Memory a1)" by (rule same(1))
    show "NumAllocated a2 = NumAllocated a1" by (rule same(2))
  qed
qed

text \<open>
  Claim C8.  The claim says that every array ends with all storage released and capacity
  zero.  The fixed-capacity policy never releases its storage: after \<^verbatim>\<open>Purge()\<close> the
  fixed-capacity array \<open>[1, 2]\<close> with capacity 3 is empty and still has capacity 3.
\<close>

theorem Purge_keeps_fixed_capacity:
  "array_inv (array_of FixedCapacity 0 0 [1, 2 :: int] 1)
   \<and> NumAllocated (array_of FixedCapacity 0 0 [1, 2 :: int] 1) = 3
   \<and> Purge (array_of FixedCapacity 0 0 [1, 2 :: int] 1)
       = Inr (array_of FixedCapacity 0 0 [] 3)
   \<and> Count (array_of FixedCapacity 0 0 ([] :: int list) 3) = 0
   \<and> NumAllocated (array_of FixedCapacity 0 0 ([] :: int list) 3) = 3"
  by code_simp

text \<open>
  Claim C8, amended.  For an array satisfying the invariant, \<^verbatim>\<open>Purge()\<close> succeeds and
  leaves size 0 with the storage released: the capacity is 0, except under the
  fixed-capacity policy, whose capacity stays at its bound.  A second \<^verbatim>\<open>Purge()\<close>
  returns the very same array.
\<close>

theorem Purge_idempotent:
  assumes "array_inv a"
  shows "\<exists>a1. Purge a = Inr a1 \<and> Purge a1 = Inr a1
            \<and> Count a1 = 0 \<and> contents a1 = []
            \<and> NumAllocated a1 =
                (if m_policy (m_Memory a) = FixedCapacity then NumAllocated a else 0)
            \<and> array_inv a1"
proof -
  obtain p g ev xs r where a: "a = array_of p g ev xs r" and g: "0 \<le> g"
    using assms(1) by (rule array_inv_obtain)
  show ?thesis
    unfolding a Purge_canon using g by (simp add: Purge_canon)
qed

theorem Purge_idempotent_example:
  "\<exists>a1. Purge (array_of Contiguous 0 3 [5, 7, 3 :: int] 1) = Inr a1 \<and> Purge a1 = Inr a1
        \<and> Count a1 = 0 \<and> contents a1 = [] \<and> NumAllocated a1 = 0 \<and> array_inv a1"
  using Purge_idempotent [of "array_of Contiguous 0 3 [5, 7, 3 :: int] 1"]
  by simp

text \<open>
  Claim C9.  The claim speaks of every pair of arrays.  When both are the same object,
  \<^verbatim>\<open>a = a\<close>, the call to \<^verbatim>\<open>SetSize\<close> destructs the elements before they are read back:
  the array \<open>[1, 2, 3]\<close> ends as three default-constructed elements (here \<open>0\<close>), in
  both build modes.  When \<open>a\<close> is a fixed-capacity array \<open>[9]\<close> with capacity 1 and
  \<open>b\<close> is \<open>[1, 2, 3]\<close>, the assignment is fatal: \<open>a\<close> cannot hold \<open>b\<close>'s elements.
\<close>

theorem self_assignment_resets_elements:
  "operator_assign True 0 This (array_of Contiguous 0 0 [1, 2, 3 :: int] 0)
     = Inr (array_of Contiguous 0 0 [0, 0, 0] 0)
   \<and> operator_assign False 0 This (array_of Contiguous 0 0 [1, 2, 3 :: int] 0)
     = Inr (array_of Contiguous 0 0 [0, 0, 0] 0)
   \<and> contents (array_of Contiguous 0 0 [0, 0, 0 :: int] 0)
     \<noteq> contents (array_of Contiguous 0 0 [1, 2, 3 :: int] 0)
   \<and> array_inv (array_of FixedCapacity 0 0 [9 :: int] 0)
   \<and> array_inv (array_of Contiguous 0 0 [1, 2, 3 :: int] 0)
   \<and> operator_assign True 0 (Other (array_of Contiguous 0 0 [1, 2, 3 :: int] 0))
       (array_of FixedCapacity 0 0 [9] 0) = Inl CapacityExceeded
   \<and> operator_assign False 0 (Other (array_of Contiguous 0 0 [1, 2, 3 :: int] 0))
       (array_of FixedCapacity 0 0 [9] 0) = Inl CapacityExceeded"
  by code_simp

text \<open>
  Claim C9, amended.  For two distinct array objects \<open>a\<close> and \<open>b\<close> that satisfy the
  invariant, where \<open>a\<close>'s storage can hold \<open>b\<close>'s elements (any policy but the
  fixed-capacity one, or \<open>b\<close>'s element count is within \<open>a\<close>'s capacity), \<^verbatim>\<open>a = b\<close>
  succeeds in both build modes; afterwards \<open>a\<close> has exactly \<open>b\<close>'s element count and
  \<open>b\<close>'s sequence of values, and satisfies the invariant.  \<open>b\<close> is passed by constant
  reference and is not written.
\<close>

theorem operator_assign_copies:
  assumes "array_inv a" and "array_inv b"
    and "m_policy (m_Memory a) \<noteq> FixedCapacity \<or> Count b \<le> NumAllocated a"
  shows "\<exists>a'. operator_assign dbg T0 (Other b) a = Inr a'
            \<and> Count a' = Count b \<and> contents a' = contents b \<and> array_inv a'"
proof -
  obtain p g ev xs r where a: "a = array_of p g ev xs r" and g: "0 \<le> g"
    using assms(1) by (rule array_inv_obtain)
  obtain p' g' ev' ys r' where b: "b = array_of p' g' ev' ys r'"
    using assms(2) by (rule array_inv_obtain)
  have room: "p \<noteq> FixedCapacity \<or> length ys \<le> length xs + r"
    using assms(3) unfolding a b by auto
  show ?thesis
    unfolding a b operator_assign_canon [OF g room] using g by simp
qed

theorem operator_assign_copies_example:
  "\<exists>a'. operator_assign True 0 (Other (array_of Contiguous 0 0 [1, 2, 3 :: int] 0))
            (array_of Contiguous 0 0 [9] 0) = Inr a'
        \<and> Count a' = 3 \<and> contents a' = [1, 2, 3] \<and> array_inv a'"
  using operator_assign_copies [of "array_of Contiguous 0 0 [9 :: int] 0"
      "array_of Contiguous 0 0 [1, 2, 3 :: int] 0" True 0]
  by simp

text \<open>
  Claim C10.  For a non-empty array of size \<open>s\<close> satisfying the invariant,
  \<^verbatim>\<open>FastRemove(s - 1)\<close> and \<^verbatim>\<open>Remove(s - 1)\<close> end in the same array: the last element
  is removed, the size is \<open>s - 1\<close> and the elements at the indices below \<open>s - 1\<close> are
  unchanged.  The relocation of the last slot onto itself in \<^verbatim>\<open>FastRemove\<close> changes
  nothing.
\<close>

theorem FastRemove_last_is_Remove_last:
  assumes "array_inv a" and "0 < Count a"
  shows "\<exists>a'. FastRemove dbg (Count a - 1) a = Inr a'
            \<and> Remove dbg (Count a - 1) a = Inr a'
            \<and> Count a' = Count a - 1
            \<and> contents a' = butlast (contents a)"
proof -
  obtain p g ev xs r where a: "a = array_of p g ev xs r" and g: "0 \<le> g"
    using assms(1) by (rule array_inv_obtain)
  have ne: "xs \<noteq> []" using assms(2) unfolding a by simp
  then have i: "length xs - 1 < length xs" by (simp add: Suc_leI)
  have idx: "Count a - 1 = int (length xs - 1)" using ne unfolding a by (simp add: Suc_leI of_nat_diff)
  have tk: "take (length xs - 1) xs @ drop (Suc (length xs - 1)) xs = butlast xs"
    using ne by (simp add: butlast_conv_take)
  have "FastRemove dbg (int (length xs - 1)) (array_of p g ev xs r)
          = Inr (array_of p g ev (butlast xs) (Suc r))"
    using FastRemove_canon [OF i, of dbg p g ev r] by simp
  moreover have "Remove dbg (int (length xs - 1)) (array_of p g ev xs r)
          = Inr (array_of p g ev (butlast xs) (Suc r))"
    using Remove_canon [OF i, of dbg p g ev r] unfolding tk .
  ultimately show ?thesis
    unfolding idx unfolding a using ne by (simp add: of_nat_diff Suc_leI)
qed

theorem FastRemove_last_is_Remove_last_example:
  "\<exists>a'. FastRemove True 3 (array_of Contiguous 0 0 [5, 9, 7, 3 :: int] 0) = Inr a'
        \<and> Remove True 3 (array_of Contiguous 0 0 [5, 9, 7, 3 :: int] 0) = Inr a'
        \<and> Count a' = 3 \<and> contents a' = [5, 9, 7]"
  using FastRemove_last_is_Remove_last [of "array_of Contiguous 0 0 [5, 9, 7, 3 :: int] 0" True]
  by simp

end
